theory Spec2Isabelle
  imports Complex_Main "HOL-Library.Word"
begin

section \<open>The collaborators of the decorator\<close>

text \<open>
  \<^verbatim>\<open>async_preserver.go\<close> wraps an asynchronous input so that a batch whose
  acknowledgement reports a failure is kept and delivered again. The file uses the
  packages \<^verbatim>\<open>message\<close>, \<^verbatim>\<open>batch\<close> and \<^verbatim>\<open>component\<close> of the repository and the
  third-party \<^verbatim>\<open>backoff\<close> package; the parts of them that the decorator calls are
  modelled first.
\<close>

subsection \<open>Parts and batches\<close>

text \<open>
  Modelled from the spec: \<^verbatim>\<open>message.Part\<close> is not in the source file. A batch is
  a sequence of references to part objects. A part is opaque to the decorator,
  which never writes to one, so a reference is modelled by the object it points
  to together with the identity of that object: \<open>ident\<close> is the address of the part
  object, and two parts with different \<open>ident\<close> are different objects. \<open>content\<close>
  is the reference to the payload, which all copies of a part share, and \<open>tags\<close>
  are the tracking tags that the part carries in its context, the newest first,
  each one a sort group and the position of the part in the batch that the group
  was made from.
\<close>

record part =
  ident :: nat
  content :: nat
  tags :: "(nat \<times> nat) list"

type_synonym Batch = "part list"

text \<open>Modelled from the spec: \<^verbatim>\<open>message.QuickBatch(nil)\<close>, the batch with no parts.\<close>

definition QuickBatch_nil :: Batch where
  "QuickBatch_nil = []"

text \<open>Modelled from the spec: \<^verbatim>\<open>Batch.Len\<close>, the number of parts as a Go \<^verbatim>\<open>int\<close>.\<close>

definition Len :: "Batch \<Rightarrow> int" where
  "Len m = int (length m)"

text \<open>
  Modelled from the spec: \<^verbatim>\<open>Batch.Get\<close> is not in the source file. It returns
  the reference held at the index, that is the part object itself and not a copy.
  The decorator calls it with an index that the tracking facility returned and
  that is not negative; for an index past the end of the batch an empty part is
  returned.
\<close>

definition emptyPart :: part where
  "emptyPart = \<lparr>ident = 0, content = 0, tags = []\<rparr>"

definition Get :: "Batch \<Rightarrow> int \<Rightarrow> part" where
  "Get m i = (if 0 \<le> i \<and> i < Len m then m ! nat i else emptyPart)"

text \<open>
  Modelled from the spec: \<^verbatim>\<open>Batch.ShallowCopy\<close> is a structural copy of the
  sequence: a new sequence holding a new part object for each part, with the same
  (shared) content and the same context. The new objects are allocated at the
  addresses \<open>a\<close>, \<open>a + 1\<close>, and so on; where the allocator puts them is an input.
\<close>

definition ShallowCopy :: "nat \<Rightarrow> Batch \<Rightarrow> Batch" where
  "ShallowCopy a m =
     map (\<lambda>(i, p). \<lparr>ident = a + i, content = content p, tags = tags p\<rparr>) (enumerate 0 m)"

subsection \<open>The tracking facility\<close>

text \<open>
  Modelled from the spec: \<^verbatim>\<open>message.NewSortGroup\<close> is not in the source file.
  Given a batch it produces a batch of taggable copies and a group that locates a
  tagged part at its original position. The group is a freshly allocated object in
  Go, and so are the copies; here the identity \<open>g\<close> of the group and the address
  \<open>a\<close> of the first copy are given by the caller. \<open>GetIndex\<close> answers \<open>-1\<close> for a
  part that carries no tag of the group.
\<close>

definition NewSortGroup :: "nat \<Rightarrow> nat \<Rightarrow> Batch \<Rightarrow> nat \<times> Batch" where
  "NewSortGroup a g m =
     (g, map (\<lambda>(i, p). \<lparr>ident = a + i, content = content p, tags = (g, i) # tags p\<rparr>)
           (enumerate 0 m))"

definition GetIndex :: "nat \<Rightarrow> part \<Rightarrow> int" where
  "GetIndex g p = (case map_of (tags p) g of Some i \<Rightarrow> int i | None \<Rightarrow> - 1)"

subsection \<open>Errors\<close>

text \<open>
  Modelled from the spec: the errors of \<^verbatim>\<open>component\<close> (\<open>ErrTypeClosed\<close>,
  \<open>ErrTimeout\<close>), the two errors of a Go context, any other error, an error that
  wraps another one, and the structured error of a batch
  (\<^verbatim>\<open>batch.WalkableError\<close>): the number of part-level errors that it reports and
  the sequence that its traversal yields, for each part its index, the part and
  its error or none.
\<close>

datatype error =
    ErrTypeClosed
  | ErrTimeout
  | Canceled
  | DeadlineExceeded
  | Failure string
  | Wrapped string error
  | WalkableError int "(int \<times> part \<times> error option) list"

text \<open>\<^verbatim>\<open>errors.Is(err, component.ErrTypeClosed)\<close>: false for \<^verbatim>\<open>nil\<close>, and follows wrapping.\<close>

fun isClosedErr :: "error \<Rightarrow> bool" where
  "isClosedErr ErrTypeClosed = True"
| "isClosedErr (Wrapped s e) = isClosedErr e"
| "isClosedErr _ = False"

definition errorsIsClosed :: "error option \<Rightarrow> bool" where
  "errorsIsClosed err = (case err of None \<Rightarrow> False | Some e \<Rightarrow> isClosedErr e)"

text \<open>
  \<^verbatim>\<open>WalkParts\<close> calls the function on each part in turn and stops when it answers
  false. The function of the decorator assigns to a variable of the enclosing
  function; that variable is the accumulator here.
\<close>

fun WalkParts ::
  "(int \<times> part \<times> error option) list \<Rightarrow> ('a \<Rightarrow> int \<Rightarrow> part \<Rightarrow> error option \<Rightarrow> 'a \<times> bool) \<Rightarrow> 'a \<Rightarrow> 'a"
where
  "WalkParts [] fn acc = acc"
| "WalkParts ((i, p, e) # ws) fn acc =
     (let (acc', continue) = fn acc i p e
      in if continue then WalkParts ws fn acc' else acc')"

subsection \<open>Durations and the backoff\<close>

type_synonym Duration = int

definition Millisecond :: Duration where
  "Millisecond = 1000000"

definition Second :: Duration where
  "Second = 1000000000"

text \<open>
  Modelled from the spec: the backoff policy is the exponential backoff of the
  third-party package \<^verbatim>\<open>cenkalti/backoff\<close>, which is not in the source file. The
  spec gives its settings; the definitions follow the algorithm that the package
  documents. Its floating point values are modelled by the rationals that they
  denote, and the rounding of a floating point operation is not modelled: a
  product or a sum is exact, and the conversion to a duration truncates. The
  clock of the package is not modelled; the time elapsed since the backoff was
  made is an input, and so is the random sample.
\<close>

record ExponentialBackOff =
  InitialInterval :: Duration
  RandomizationFactor :: rat
  Multiplier :: rat
  MaxInterval :: Duration
  MaxElapsedTime :: Duration
  Stop :: Duration
  currentInterval :: Duration

text \<open>The conversion \<^verbatim>\<open>time.Duration(x)\<close> of a floating point value: towards zero.\<close>

definition toDuration :: "rat \<Rightarrow> Duration" where
  "toDuration x = (if 0 \<le> x then \<lfloor>x\<rfloor> else \<lceil>x\<rceil>)"

text \<open>\<^verbatim>\<open>Reset\<close>: the current interval becomes the initial interval.\<close>

definition Reset :: "ExponentialBackOff \<Rightarrow> ExponentialBackOff" where
  "Reset b = b\<lparr>currentInterval := InitialInterval b\<rparr>"

text \<open>
  \<^verbatim>\<open>NewExponentialBackOff\<close>: the defaults of the package (500 ms, 0.5, 1.5, 60 s,
  15 min, and \<open>-1\<close> for \<^verbatim>\<open>Stop\<close>), and then \<^verbatim>\<open>Reset\<close>.
\<close>

definition NewExponentialBackOff :: ExponentialBackOff where
  "NewExponentialBackOff =
     Reset \<lparr>InitialInterval = 500 * Millisecond, RandomizationFactor = 1 / 2,
            Multiplier = 3 / 2, MaxInterval = 60 * Second, MaxElapsedTime = 15 * (60 * Second),
            Stop = - 1, currentInterval = 0\<rparr>"

text \<open>
  \<^verbatim>\<open>getRandomValueFromInterval\<close>: a value between the current interval less and
  plus the randomization factor times itself, chosen by the sample \<open>random\<close>, which
  \<^verbatim>\<open>rand.Float64()\<close> draws from 0 up to but not including 1.
\<close>

definition getRandomValueFromInterval :: "rat \<Rightarrow> rat \<Rightarrow> Duration \<Rightarrow> Duration" where
  "getRandomValueFromInterval randomizationFactor random current =
     (if randomizationFactor = 0 then current
      else let delta = randomizationFactor * of_int current;
               minInterval = of_int current - delta;
               maxInterval = of_int current + delta
           in toDuration (minInterval + random * (maxInterval - minInterval + 1)))"

text \<open>
  \<^verbatim>\<open>incrementCurrentInterval\<close>: the current interval times the multiplier, and the
  maximal interval once the product would pass it.
\<close>

definition incrementCurrentInterval :: "ExponentialBackOff \<Rightarrow> ExponentialBackOff" where
  "incrementCurrentInterval b =
     (if of_int (MaxInterval b) / Multiplier b \<le> of_int (currentInterval b)
      then b\<lparr>currentInterval := MaxInterval b\<rparr>
      else b\<lparr>currentInterval := toDuration (of_int (currentInterval b) * Multiplier b)\<rparr>)"

text \<open>
  \<^verbatim>\<open>NextBackOff\<close>: the delay drawn around the current interval, and the backoff
  with its current interval advanced; \<^verbatim>\<open>Stop\<close> when a maximal elapsed time is set
  and would be passed.
\<close>

definition NextBackOff :: "ExponentialBackOff \<Rightarrow> rat \<Rightarrow> Duration \<Rightarrow> Duration \<times> ExponentialBackOff" where
  "NextBackOff b random elapsed =
     (let next = getRandomValueFromInterval (RandomizationFactor b) random (currentInterval b);
          b = incrementCurrentInterval b
      in if MaxElapsedTime b \<noteq> 0 \<and> MaxElapsedTime b < elapsed + next
         then (Stop b, b) else (next, b))"

text \<open>The value of type \<^verbatim>\<open>float64\<close> that the Go literal \<^verbatim>\<open>1.1\<close> denotes.\<close>

definition float64_1_1 :: rat where
  "float64_1_1 = 2476979795053773 / 2251799813685248"

section \<open>The decorator\<close>

type_synonym ackFun = "error option \<Rightarrow> error option"

record asyncPreserverResend =
  boff :: ExponentialBackOff
  attempts :: "64 word"
  msg :: Batch
  ackFn :: ackFun

definition newResendMsg :: "Batch \<Rightarrow> ackFun \<Rightarrow> asyncPreserverResend" where
  "newResendMsg m f =
     (let b = NewExponentialBackOff;
          b = b\<lparr>InitialInterval := Millisecond\<rparr>;
          b = b\<lparr>MaxInterval := Second\<rparr>;
          b = b\<lparr>Multiplier := float64_1_1\<rparr>;
          b = b\<lparr>MaxElapsedTime := 0\<rparr>
      in \<lparr>boff = b, attempts = 0, msg = m, ackFn = f\<rparr>)"

text \<open>
  The fields of \<^verbatim>\<open>AsyncPreserver\<close>. \<open>resendInterrupt\<close> is the cancel function of
  the scope of a read, named by the identity of that scope, or the function that
  does nothing (\<open>None\<close>). The mutex is not a field: each operation below is one
  step. The wrapped source \<^verbatim>\<open>r\<close> is not a field either: what its calls return is
  an input of each operation.
\<close>

record AsyncPreserver =
  resendMessages :: "asyncPreserverResend list"
  resendInterrupt :: "nat option"
  pendingMessages :: "64 word"
  inputClosed :: "32 word"

definition NewAsyncPreserver :: AsyncPreserver where
  "NewAsyncPreserver =
     \<lparr>resendMessages = [], resendInterrupt = None, pendingMessages = 0, inputClosed = 0\<rparr>"

subsection \<open>Connect and Close\<close>

text \<open>\<open>err\<close> is what \<^verbatim>\<open>p.r.Connect(ctx)\<close> returned.\<close>

definition Connect :: "AsyncPreserver \<Rightarrow> error option \<Rightarrow> AsyncPreserver \<times> error option" where
  "Connect p err =
     (if errorsIsClosed err \<and> 0 <s pendingMessages p
      then (p\<lparr>inputClosed := 1\<rparr>, None)
      else (p, err))"

text \<open>\<open>err\<close> is what \<^verbatim>\<open>p.r.Close(ctx)\<close> returned.\<close>

definition Close :: "AsyncPreserver \<Rightarrow> error option \<Rightarrow> AsyncPreserver \<times> error option" where
  "Close p err = (p, err)"

subsection \<open>The wrapped acknowledgement\<close>

text \<open>
  The two closures that \<^verbatim>\<open>wrapSingleAckFn\<close> and \<^verbatim>\<open>wrapBatchAckFn\<close> return, as
  data: the captured entry and, for a batch, the captured sort group.
\<close>

datatype wrappedAckFn =
    SingleAck asyncPreserverResend
  | BatchAck nat asyncPreserverResend

text \<open>
  What a call of a wrapped acknowledgement does: the state after it, what it
  returns, the results handed to the original acknowledgement, and the scopes
  whose cancel function it invoked.
\<close>

record ackOutcome =
  ackState :: AsyncPreserver
  ackReturn :: "error option"
  forwarded :: "error option list"
  cancelled :: "nat list"

text \<open>Lines 112 to 116 and 126 to 130: append under the mutex, interrupt, return \<^verbatim>\<open>nil\<close>.\<close>

definition enqueue :: "AsyncPreserver \<Rightarrow> asyncPreserverResend \<Rightarrow> ackOutcome" where
  "enqueue p m =
     \<lparr>ackState = p\<lparr>resendMessages := resendMessages p @ [m]\<rparr>,
      ackReturn = None,
      forwarded = [],
      cancelled = (case resendInterrupt p of None \<Rightarrow> [] | Some k \<Rightarrow> [k])\<rparr>"

text \<open>Lines 118 to 119 and 132 to 133: the counter goes down, the original is called.\<close>

definition forward :: "AsyncPreserver \<Rightarrow> asyncPreserverResend \<Rightarrow> error option \<Rightarrow> ackOutcome" where
  "forward p m res =
     \<lparr>ackState = p\<lparr>pendingMessages := pendingMessages p - 1\<rparr>,
      ackReturn = ackFn m res,
      forwarded = [res],
      cancelled = []\<rparr>"

text \<open>The function given to \<^verbatim>\<open>WalkParts\<close> (lines 92 to 105).\<close>

definition walkFn :: "nat \<Rightarrow> Batch \<Rightarrow> Batch \<Rightarrow> int \<Rightarrow> part \<Rightarrow> error option \<Rightarrow> Batch \<times> bool" where
  "walkFn sortGroup orig resendMsg i p e =
     (if e = None then (resendMsg, True)
      else let tagIndex = GetIndex sortGroup p
           in if 0 \<le> tagIndex then (resendMsg @ [Get orig tagIndex], True)
              else (orig, False))"

text \<open>The batch to send again after the failure \<open>res\<close> (lines 89 to 109).\<close>

definition resendBatch :: "nat \<Rightarrow> Batch \<Rightarrow> error \<Rightarrow> Batch" where
  "resendBatch sortGroup orig res =
     (case res of
        WalkableError n walk \<Rightarrow>
          if n < Len orig
          then (let resendMsg = WalkParts walk (walkFn sortGroup orig) QuickBatch_nil
                in if Len resendMsg = 0 then orig else resendMsg)
          else orig
      | _ \<Rightarrow> orig)"

fun callAck :: "AsyncPreserver \<Rightarrow> wrappedAckFn \<Rightarrow> error option \<Rightarrow> ackOutcome" where
  "callAck p (SingleAck m) (Some e) = enqueue p m"
| "callAck p (SingleAck m) None = forward p m None"
| "callAck p (BatchAck sortGroup m) (Some e) =
     enqueue p (m\<lparr>msg := resendBatch sortGroup (msg m) e\<rparr>)"
| "callAck p (BatchAck sortGroup m) None = forward p m None"

text \<open>
  The closure after a call. The closure of \<^verbatim>\<open>wrapBatchAckFn\<close> assigns the batch to
  send again to its captured entry (line 110), so a further call of the same
  closure \<open>h\<close>, which the caller is not to make, is a call of \<open>afterAck h res\<close>. The
  closure of \<^verbatim>\<open>wrapSingleAckFn\<close> assigns nothing.
\<close>

fun afterAck :: "wrappedAckFn \<Rightarrow> error option \<Rightarrow> wrappedAckFn" where
  "afterAck (BatchAck sortGroup m) (Some e) =
     BatchAck sortGroup (m\<lparr>msg := resendBatch sortGroup (msg m) e\<rparr>)"
| "afterAck h res = h"

definition wrapSingleAckFn :: "asyncPreserverResend \<Rightarrow> Batch \<times> wrappedAckFn" where
  "wrapSingleAckFn m = (msg m, SingleAck m)"

text \<open>
  \<open>a\<close> and \<open>g\<close> are where the allocator puts the tagged copies and the sort group
  that \<^verbatim>\<open>NewSortGroup\<close> makes.
\<close>

definition wrapBatchAckFn :: "nat \<Rightarrow> nat \<Rightarrow> asyncPreserverResend \<Rightarrow> Batch \<times> wrappedAckFn" where
  "wrapBatchAckFn a g m =
     (let (sortGroup, trackedMsg) = NewSortGroup a g (msg m)
      in (trackedMsg, BatchAck sortGroup m))"

definition wrapAckFn :: "nat \<Rightarrow> nat \<Rightarrow> asyncPreserverResend \<Rightarrow> Batch \<times> wrappedAckFn" where
  "wrapAckFn a g m = (if Len (msg m) = 1 then wrapSingleAckFn m else wrapBatchAckFn a g m)"

subsection \<open>ReadBatch\<close>

text \<open>
  How the scope of a read can end: the caller cancels or its deadline passes, or
  the cancel function kept in \<open>resendInterrupt\<close> is invoked by an acknowledgement.
\<close>

datatype callerEnd = CallerCancelled | CallerDeadline

datatype scopeEnd = ByCaller callerEnd | ByInterrupt

text \<open>\<^verbatim>\<open>ctx.Err()\<close> of a scope that the caller ended.\<close>

fun ctxErr :: "callerEnd \<Rightarrow> error" where
  "ctxErr CallerCancelled = Canceled"
| "ctxErr CallerDeadline = DeadlineExceeded"

text \<open>
  What one \<^verbatim>\<open>select\<close> of the drain loop receives: the end of the scope, or the
  timer, and then the value of the counter that the loop loads.
\<close>

datatype pollEvent = CtxDone scopeEnd | TimerFired "64 word"

definition drainPollInterval :: Duration where
  "drainPollInterval = Millisecond * 10"

text \<open>
  The drain loop (lines 190 to 199) on the events that it receives; \<open>waited\<close> is
  the time spent in timers that fired. \<open>None\<close>: the loop has not returned on these
  events.
\<close>

fun drainPoll :: "Duration \<Rightarrow> pollEvent list \<Rightarrow> (error \<times> Duration) option" where
  "drainPoll waited [] = None"
| "drainPoll waited (CtxDone c # evs) = Some (ErrTimeout, waited)"
| "drainPoll waited (TimerFired n # evs) =
     (if n \<le>s 0 then Some (ErrTypeClosed, waited + drainPollInterval)
      else drainPoll (waited + drainPollInterval) evs)"

text \<open>
  The inputs of one read: the identity of the scope that it derives; where the
  allocator puts the sort group, the tagged copies and the shallow copies that the
  read makes; the random sample and the elapsed time that \<^verbatim>\<open>NextBackOff\<close> uses;
  whether the caller ends the scope during the sleep; what \<^verbatim>\<open>p.r.ReadBatch\<close>
  returns; and what the drain loop receives.
\<close>

record readEnv =
  scope :: nat
  newGroup :: nat
  trackAt :: nat
  copyAt :: nat
  random :: rat
  elapsed :: Duration
  sleepEnd :: "callerEnd option"
  sourceRead :: "error + Batch \<times> ackFun"
  polls :: "pollEvent list"

text \<open>
  What a read returns: an error, or a batch and its wrapped acknowledgement;
  \<open>None\<close> while the drain loop has not returned.
\<close>

type_synonym readResult = "(error + Batch \<times> wrappedAckFn) option"

text \<open>Lines 166 to 167 and 204 to 205.\<close>

definition deliver :: "AsyncPreserver \<Rightarrow> readEnv \<Rightarrow> asyncPreserverResend \<Rightarrow> AsyncPreserver \<times> readResult" where
  "deliver p env m =
     (let (sendMsg, ackFn') = wrapAckFn (trackAt env) (newGroup env) m
      in (p, Some (Inr (ShallowCopy (copyAt env) sendMsg, ackFn'))))"

text \<open>
  Lines 155 to 158, on the entry taken from the queue: the attempts go up, and
  past the second attempt the backoff is asked for a delay. The result is the
  delay to wait for, if one is positive, and the entry as it is then.
\<close>

definition backoffDelay :: "asyncPreserverResend \<Rightarrow> readEnv \<Rightarrow> Duration option \<times> asyncPreserverResend" where
  "backoffDelay resend env =
     (let resend = resend\<lparr>attempts := attempts resend + 1\<rparr>
      in if 2 <s attempts resend
         then (let (tout, b) = NextBackOff (boff resend) (random env) (elapsed env);
                   resend = resend\<lparr>boff := b\<rparr>
               in if 0 < tout then (Some tout, resend) else (None, resend))
         else (None, resend))"

text \<open>
  Lines 155 to 167: the wait, which the end of the scope of the caller cuts short,
  and the delivery.
\<close>

definition redeliver :: "AsyncPreserver \<Rightarrow> readEnv \<Rightarrow> asyncPreserverResend \<Rightarrow> AsyncPreserver \<times> readResult" where
  "redeliver p env resend =
     (let (wait, resend) = backoffDelay resend env
      in case wait of
           None \<Rightarrow> deliver p env resend
         | Some tout \<Rightarrow>
             (case sleepEnd env of
                None \<Rightarrow> deliver p env resend
              | Some c \<Rightarrow> (p, Some (Inl (ctxErr c)))))"

text \<open>Lines 169 to 205, when the queue is empty.\<close>

definition readFresh :: "AsyncPreserver \<Rightarrow> readEnv \<Rightarrow> AsyncPreserver \<times> readResult" where
  "readFresh p env =
     (let p = p\<lparr>resendInterrupt := Some (scope env)\<rparr>;
          r = (if 0 <s inputClosed p then Inl ErrTypeClosed else sourceRead env)
      in case r of
           Inl err \<Rightarrow>
             if isClosedErr err \<and> 0 <s pendingMessages p
             then (p, map_option (\<lambda>(e, w). Inl e) (drainPoll 0 (polls env)))
             else (p, Some (Inl err))
         | Inr (m, aFn) \<Rightarrow>
             deliver (p\<lparr>pendingMessages := pendingMessages p + 1\<rparr>) env
               (newResendMsg m aFn))"

definition ReadBatch :: "AsyncPreserver \<Rightarrow> readEnv \<Rightarrow> AsyncPreserver \<times> readResult" where
  "ReadBatch p env =
     (let lMsgs = length (resendMessages p)
      in if 0 < lMsgs
         then (let resend = resendMessages p ! 0;
                   p = p\<lparr>resendMessages := (if 1 < lMsgs then drop 1 (resendMessages p) else [])\<rparr>
               in redeliver p env resend)
         else readFresh p env)"

section \<open>The decorator and its caller\<close>

text \<open>
  The entry that a wrapped acknowledgement has captured and keeps until the batch
  is resolved.
\<close>

fun ackEntry :: "wrappedAckFn \<Rightarrow> asyncPreserverResend" where
  "ackEntry (SingleAck m) = m"
| "ackEntry (BatchAck sortGroup m) = m"

text \<open>
  The decorator together with what its caller holds: the wrapped acknowledgements
  that were delivered and are not yet invoked (the caller invokes each one once),
  and the number of entries that a read took from the queue and did not deliver.
\<close>

record system =
  dec :: AsyncPreserver
  outstanding :: "wrappedAckFn list"
  lost :: nat

definition initial :: system where
  "initial = \<lparr>dec = NewAsyncPreserver, outstanding = [], lost = 0\<rparr>"

definition connectStep :: "system \<Rightarrow> error option \<Rightarrow> system" where
  "connectStep c err = c\<lparr>dec := fst (Connect (dec c) err)\<rparr>"

definition closeStep :: "system \<Rightarrow> error option \<Rightarrow> system" where
  "closeStep c err = c\<lparr>dec := fst (Close (dec c) err)\<rparr>"

definition readStep :: "system \<Rightarrow> readEnv \<Rightarrow> system" where
  "readStep c env =
     (let (p, r) = ReadBatch (dec c) env
      in case r of
           Some (Inr (b, h)) \<Rightarrow> c\<lparr>dec := p, outstanding := h # outstanding c\<rparr>
         | Some (Inl e) \<Rightarrow>
             c\<lparr>dec := p, lost := (if resendMessages (dec c) = [] then lost c else Suc (lost c))\<rparr>
         | None \<Rightarrow> c\<lparr>dec := p\<rparr>)"

text \<open>The caller invokes the \<open>i\<close>-th acknowledgement that it holds, with \<open>res\<close>.\<close>

definition ackStep :: "system \<Rightarrow> nat \<Rightarrow> error option \<Rightarrow> system" where
  "ackStep c i res =
     c\<lparr>dec := ackState (callAck (dec c) (outstanding c ! i) res),
       outstanding := take i (outstanding c) @ drop (Suc i) (outstanding c)\<rparr>"

inductive reachable :: "system \<Rightarrow> bool" where
  reach_initial: "reachable initial"
| reach_connect: "reachable c \<Longrightarrow> reachable (connectStep c err)"
| reach_close: "reachable c \<Longrightarrow> reachable (closeStep c err)"
| reach_read: "reachable c \<Longrightarrow> reachable (readStep c env)"
| reach_ack: "reachable c \<Longrightarrow> i < length (outstanding c) \<Longrightarrow> reachable (ackStep c i res)"

text \<open>The number of batches that were read from the source and are not yet resolved.\<close>

definition inFlight :: "system \<Rightarrow> nat" where
  "inFlight c = length (resendMessages (dec c)) + length (outstanding c) + lost c"

text \<open>The counter, as a 64-bit value, is the number of batches in flight.\<close>

definition counted :: "system \<Rightarrow> bool" where
  "counted c \<longleftrightarrow> pendingMessages (dec c) = of_nat (inFlight c)"

section \<open>Examples\<close>

text \<open>
  A batch of three parts and its entry; the read that gets the batch from the
  source, the state after it and the batch that it delivers; two traversals of a
  structured error over the delivered parts, the second with a part that the sort
  group does not know.
\<close>

definition partA :: part where "partA = \<lparr>ident = 1, content = 10, tags = []\<rparr>"
definition partB :: part where "partB = \<lparr>ident = 2, content = 11, tags = []\<rparr>"
definition partC :: part where "partC = \<lparr>ident = 3, content = 12, tags = []\<rparr>"

definition batch3 :: Batch where "batch3 = [partA, partB, partC]"

definition entry3 :: asyncPreserverResend where
  "entry3 = newResendMsg batch3 (\<lambda>res. res)"

definition freshEnv3 :: readEnv where
  "freshEnv3 = \<lparr>scope = 1, newGroup = 7, trackAt = 100, copyAt = 200, random = 1 / 2,
     elapsed = 0, sleepEnd = None, sourceRead = Inr (batch3, \<lambda>res. res), polls = []\<rparr>"

definition delivered3 :: AsyncPreserver where
  "delivered3 = NewAsyncPreserver\<lparr>resendInterrupt := Some 1, pendingMessages := 1\<rparr>"

definition sent3 :: Batch where
  "sent3 = ShallowCopy 200 (snd (NewSortGroup 100 7 batch3))"

definition walkSecondFailed :: "(int \<times> part \<times> error option) list" where
  "walkSecondFailed =
     [(0, sent3 ! 0, None),
      (1, sent3 ! 1, Some (Failure ''rejected'')),
      (2, sent3 ! 2, None)]"

definition walkUntracked :: "(int \<times> part \<times> error option) list" where
  "walkUntracked =
     [(0, sent3 ! 0, Some (Failure ''rejected'')),
      (1, partB, Some (Failure ''rejected'')),
      (2, sent3 ! 2, None)]"

text \<open>
  A batch of one part; a read that gets it from the source; a read of the queue
  with the random sample in the middle; the same read with the caller cancelling
  during the wait.
\<close>

definition entry1 :: asyncPreserverResend where
  "entry1 = newResendMsg [partA] (\<lambda>res. res)"

definition freshEnv :: readEnv where
  "freshEnv = freshEnv3\<lparr>sourceRead := Inr ([partA], \<lambda>res. res)\<rparr>"

definition retryEnv :: readEnv where
  "retryEnv = \<lparr>scope = 2, newGroup = 8, trackAt = 300, copyAt = 400, random = 1 / 2,
     elapsed = 0, sleepEnd = None, sourceRead = Inl ErrTypeClosed, polls = []\<rparr>"

definition cancelledEnv :: readEnv where
  "cancelledEnv = retryEnv\<lparr>sleepEnd := Some CallerCancelled\<rparr>"

text \<open>The backoff of that entry with the current interval \<open>c\<close>.\<close>

definition backOffAt :: "Duration \<Rightarrow> ExponentialBackOff" where
  "backOffAt c = (boff entry1)\<lparr>currentInterval := c\<rparr>"

text \<open>
  The entry of the batch of one part as it is on the queue after it was delivered
  again \<open>n\<close> times and failed each time.
\<close>

definition entryAfter :: "nat \<Rightarrow> asyncPreserverResend" where
  "entryAfter n = ((\<lambda>e. snd (backoffDelay e retryEnv)) ^^ n) entry1"

text \<open>
  The batch of one part is read, fails, is delivered again and fails, is delivered
  a second time and fails: its entry is on the queue with two attempts. Then it is
  delivered a third time and fails.
\<close>

definition failedTwice :: system where
  "failedTwice =
     ackStep (readStep (ackStep (readStep (ackStep (readStep initial freshEnv) 0
       (Some (Failure ''down''))) retryEnv) 0 (Some (Failure ''down''))) retryEnv) 0
       (Some (Failure ''down''))"

definition failedThrice :: system where
  "failedThrice = ackStep (readStep failedTwice retryEnv) 0 (Some (Failure ''down''))"

text \<open>
  Two batches in flight, the source closed; a source that answers closed; the
  events of a drain loop that ends with the counter at zero, with the interrupt,
  with the caller cancelling.
\<close>

definition drainingState :: AsyncPreserver where
  "drainingState = NewAsyncPreserver\<lparr>pendingMessages := 2, inputClosed := 1\<rparr>"

definition closedEnv :: readEnv where
  "closedEnv = \<lparr>scope = 3, newGroup = 9, trackAt = 500, copyAt = 600, random = 1 / 2,
     elapsed = 0, sleepEnd = None, sourceRead = Inl (Wrapped ''read'' ErrTypeClosed),
     polls = []\<rparr>"

definition drainedPolls :: "pollEvent list" where
  "drainedPolls = map TimerFired [2, 1] @ TimerFired 0 # []"

definition interruptedPolls :: "pollEvent list" where
  "interruptedPolls = map TimerFired [2] @ CtxDone ByInterrupt # []"

definition cancelledPolls :: "pollEvent list" where
  "cancelledPolls = map TimerFired [2] @ CtxDone (ByCaller CallerCancelled) # []"

section \<open>Signed counters\<close>

lemma sint_dec:
  assumes "- (2 ^ 63) < sint (w :: 64 word)"
  shows "sint (w - 1) = sint w - 1"
proof -
  have "sint w < 2 ^ 63" using sint_lt [of w] by simp
  with assms have "signed_take_bit 63 (sint w - 1) = sint w - 1"
    by (intro signed_take_bit_int_eq_self) simp_all
  then show ?thesis by (simp add: sint_word_ariths)
qed

lemma sint_of_nat_small:
  assumes "n < 2 ^ 63"
  shows "sint (of_nat n :: 64 word) = int n"
proof -
  have "signed_take_bit 63 (int n) = int n"
    using assms by (intro signed_take_bit_int_eq_self) simp_all
  then show ?thesis by (simp add: signed_of_nat)
qed

section \<open>The wrapped acknowledgement\<close>

lemmas example_defs = partA_def partB_def partC_def batch3_def entry3_def sent3_def
  walkSecondFailed_def walkUntracked_def newResendMsg_def Len_def GetIndex_def
  ShallowCopy_def NewSortGroup_def

lemma WalkParts_all_located:
  "\<forall>(i, q, e) \<in> set walk. e \<noteq> None \<longrightarrow> 0 \<le> GetIndex g q \<Longrightarrow>
   WalkParts walk (walkFn g orig) acc =
     acc @ map (\<lambda>(i, q, e). Get orig (GetIndex g q)) (filter (\<lambda>(i, q, e). e \<noteq> None) walk)"
proof (induction walk arbitrary: acc)
  case Nil
  then show ?case by simp
next
  case (Cons w ws)
  obtain i q e where w: "w = (i, q, e)" by (cases w) auto
  from Cons.prems have rest: "\<forall>(i, q, e) \<in> set ws. e \<noteq> None \<longrightarrow> 0 \<le> GetIndex g q"
    by simp
  show ?case
  proof (cases e)
    case None
    then show ?thesis using Cons.IH [OF rest] w by (simp add: walkFn_def)
  next
    case (Some err)
    with Cons.prems w have "0 \<le> GetIndex g q" by simp
    then show ?thesis using Cons.IH [OF rest] w Some by (simp add: walkFn_def Let_def)
  qed
qed

lemma WalkParts_not_located:
  "\<exists>(i, q, e) \<in> set walk. e \<noteq> None \<and> GetIndex g q < 0 \<Longrightarrow>
   WalkParts walk (walkFn g orig) acc = orig"
proof (induction walk arbitrary: acc)
  case Nil
  then show ?case by simp
next
  case (Cons w ws)
  obtain i q e where w: "w = (i, q, e)" by (cases w) auto
  show ?case
  proof (cases "e \<noteq> None \<and> GetIndex g q < 0")
    case True
    then show ?thesis using w by (auto simp: walkFn_def Let_def)
  next
    case False
    with Cons.prems w have "\<exists>(i, q, e) \<in> set ws. e \<noteq> None \<and> GetIndex g q < 0"
      by auto
    from Cons.IH [OF this] show ?thesis using w False
      by (auto simp: walkFn_def Let_def)
  qed
qed

lemma wrapAckFn_multi:
  "Len (msg m) \<noteq> 1 \<Longrightarrow> wrapAckFn a g m = (snd (NewSortGroup a g (msg m)), BatchAck g m)"
  by (simp add: wrapAckFn_def wrapBatchAckFn_def NewSortGroup_def)

lemma wrapAckFn_single:
  "Len (msg m) = 1 \<Longrightarrow> wrapAckFn a g m = (msg m, SingleAck m)"
  by (simp add: wrapAckFn_def wrapSingleAckFn_def)

lemma ackEntry_wrapAckFn: "ackEntry (snd (wrapAckFn a g m)) = m"
  by (cases "Len (msg m) = 1") (simp_all add: wrapAckFn_multi wrapAckFn_single)

text \<open>
  The parts that \<^verbatim>\<open>wrapBatchAckFn\<close> hands out are located by its sort group at
  their positions, also after the shallow copy.
\<close>

lemma GetIndex_NewSortGroup:
  assumes "i < length m"
  shows "GetIndex g (ShallowCopy b (snd (NewSortGroup a g m)) ! i) = int i"
proof -
  have "snd (NewSortGroup a g m) ! i
      = \<lparr>ident = a + i, content = content (m ! i), tags = (g, i) # tags (m ! i)\<rparr>"
    using assms by (simp add: NewSortGroup_def nth_enumerate_eq)
  then have "ShallowCopy b (snd (NewSortGroup a g m)) ! i
      = \<lparr>ident = b + i, content = content (m ! i), tags = (g, i) # tags (m ! i)\<rparr>"
    using assms by (simp add: ShallowCopy_def NewSortGroup_def nth_enumerate_eq)
  then show ?thesis by (simp add: GetIndex_def)
qed

lemma resendBatch_located:
  assumes "n < Len orig"
    and loc: "\<forall>(i, q, e) \<in> set walk. e \<noteq> None \<longrightarrow> 0 \<le> GetIndex g q \<and> GetIndex g q < Len orig"
    and some: "\<exists>(i, q, e) \<in> set walk. e \<noteq> None"
  shows "resendBatch g orig (WalkableError n walk) =
    map (\<lambda>(i, q, e). orig ! nat (GetIndex g q)) (filter (\<lambda>(i, q, e). e \<noteq> None) walk)"
proof -
  let ?errored = "filter (\<lambda>(i, q, e). e \<noteq> None) walk"
  from loc have "\<forall>(i, q, e) \<in> set walk. e \<noteq> None \<longrightarrow> 0 \<le> GetIndex g q" by auto
  then have walk: "WalkParts walk (walkFn g orig) QuickBatch_nil =
      map (\<lambda>(i, q, e). Get orig (GetIndex g q)) ?errored"
    by (simp add: WalkParts_all_located QuickBatch_nil_def)
  have "map (\<lambda>(i, q, e). Get orig (GetIndex g q)) ?errored =
      map (\<lambda>(i, q, e). orig ! nat (GetIndex g q)) ?errored"
    using loc by (intro map_cong) (auto simp: Get_def)
  moreover from some have "?errored \<noteq> []"
    by (auto simp: filter_empty_conv)
  ultimately show ?thesis using walk assms(1)
    by (simp add: resendBatch_def Len_def)
qed

lemma resendBatch_fallback:
  assumes "n < Len orig"
    and "(\<exists>(i, q, e) \<in> set walk. e \<noteq> None \<and> GetIndex g q < 0)
         \<or> \<not> (\<exists>(i, q, e) \<in> set walk. e \<noteq> None)"
  shows "resendBatch g orig (WalkableError n walk) = orig"
proof -
  from assms(2) show ?thesis
  proof
    assume "\<exists>(i, q, e) \<in> set walk. e \<noteq> None \<and> GetIndex g q < 0"
    then have "WalkParts walk (walkFn g orig) QuickBatch_nil = orig"
      by (rule WalkParts_not_located)
    then show ?thesis by (simp add: resendBatch_def)
  next
    assume none: "\<not> (\<exists>(i, q, e) \<in> set walk. e \<noteq> None)"
    then have "\<forall>(i, q, e) \<in> set walk. e \<noteq> None \<longrightarrow> 0 \<le> GetIndex g q" by auto
    then have "WalkParts walk (walkFn g orig) QuickBatch_nil =
        map (\<lambda>(i, q, e). Get orig (GetIndex g q)) (filter (\<lambda>(i, q, e). e \<noteq> None) walk)"
      by (simp add: WalkParts_all_located QuickBatch_nil_def)
    moreover from none have "filter (\<lambda>(i, q, e). e \<noteq> None) walk = []"
      by (auto simp: filter_empty_conv)
    ultimately show ?thesis by (simp add: resendBatch_def Len_def)
  qed
qed

lemma resendBatch_total:
  "Len orig \<le> n \<Longrightarrow> resendBatch g orig (WalkableError n walk) = orig"
  "\<forall>n walk. res \<noteq> WalkableError n walk \<Longrightarrow> resendBatch g orig res = orig"
  by (auto simp: resendBatch_def split: error.splits)

text \<open>
  C1. For a batch that does not have exactly one part, and a structured error that
  reports fewer part errors than the batch has parts: when every errored part of
  the traversal is located at a position of the batch and there is one, the call
  appends to the queue one entry, which is the delivered entry with, as its batch,
  exactly the original parts at those positions, in the order of the traversal;
  when an errored part is not located, or no part is errored, the entry appended
  is the delivered entry with the whole original batch. A structured error that
  reports at least as many errors as the batch has parts, and an error that is not
  structured, append the delivered entry with the whole original batch. In each
  case the call returns nil.
\<close>

theorem batch_ack_failure_resend:
  assumes "Len (msg m) \<noteq> 1"
  shows
    "(n < Len (msg m)
        \<and> (\<forall>(i, q, e) \<in> set walk. e \<noteq> None \<longrightarrow> 0 \<le> GetIndex g q \<and> GetIndex g q < Len (msg m))
        \<and> (\<exists>(i, q, e) \<in> set walk. e \<noteq> None)
      \<longrightarrow> resendMessages (ackState
              (callAck p (snd (wrapAckFn a g m)) (Some (WalkableError n walk))))
            = resendMessages p @
                [m\<lparr>msg := map (\<lambda>(i, q, e). msg m ! nat (GetIndex g q))
                              (filter (\<lambda>(i, q, e). e \<noteq> None) walk)\<rparr>])
     \<and> (n < Len (msg m)
        \<and> ((\<exists>(i, q, e) \<in> set walk. e \<noteq> None \<and> GetIndex g q < 0)
            \<or> \<not> (\<exists>(i, q, e) \<in> set walk. e \<noteq> None))
      \<longrightarrow> resendMessages (ackState
              (callAck p (snd (wrapAckFn a g m)) (Some (WalkableError n walk))))
            = resendMessages p @ [m])
     \<and> (Len (msg m) \<le> n
      \<longrightarrow> resendMessages (ackState
              (callAck p (snd (wrapAckFn a g m)) (Some (WalkableError n walk))))
            = resendMessages p @ [m])
     \<and> ((\<forall>n walk. res \<noteq> WalkableError n walk)
      \<longrightarrow> resendMessages (ackState (callAck p (snd (wrapAckFn a g m)) (Some res)))
            = resendMessages p @ [m])
     \<and> ackReturn (callAck p (snd (wrapAckFn a g m)) (Some res)) = None"
  using assms
  by (simp add: wrapAckFn_multi resendBatch_located resendBatch_fallback resendBatch_total
      enqueue_def)

theorem batch_ack_failure_resend_witness:
  "Len (msg entry3) \<noteq> 1
   \<and> snd (ReadBatch NewAsyncPreserver freshEnv3) = Some (Inr (sent3, snd (wrapAckFn 100 7 entry3)))
   \<and> resendMessages (ackState (callAck delivered3 (snd (wrapAckFn 100 7 entry3))
        (Some (WalkableError 1 walkSecondFailed)))) = [entry3\<lparr>msg := [partB]\<rparr>]
   \<and> resendMessages (ackState (callAck delivered3 (snd (wrapAckFn 100 7 entry3))
        (Some (WalkableError 2 walkUntracked)))) = [entry3]
   \<and> resendMessages (ackState (callAck delivered3 (snd (wrapAckFn 100 7 entry3))
        (Some (WalkableError 3 walkSecondFailed)))) = [entry3]
   \<and> resendMessages (ackState (callAck delivered3 (snd (wrapAckFn 100 7 entry3))
        (Some (Failure ''down'')))) = [entry3]"
proof -
  have multi: "Len (msg entry3) \<noteq> 1"
    by (simp add: example_defs)
  have read: "snd (ReadBatch NewAsyncPreserver freshEnv3)
      = Some (Inr (sent3, snd (wrapAckFn 100 7 entry3)))"
    by (simp add: ReadBatch_def readFresh_def deliver_def wrapAckFn_def wrapBatchAckFn_def
        freshEnv3_def NewAsyncPreserver_def word_sless_alt example_defs)
  have located: "1 < Len (msg entry3)
      \<and> (\<forall>(i, q, e) \<in> set walkSecondFailed. e \<noteq> None \<longrightarrow> 0 \<le> GetIndex 7 q \<and> GetIndex 7 q < Len (msg entry3))
      \<and> (\<exists>(i, q, e) \<in> set walkSecondFailed. e \<noteq> None)"
    by (simp add: example_defs)
  have subset: "map (\<lambda>(i, q, e). msg entry3 ! nat (GetIndex 7 q))
      (filter (\<lambda>(i, q, e). e \<noteq> None) walkSecondFailed) = [partB]"
    by (simp add: example_defs)
  have untracked: "2 < Len (msg entry3)
      \<and> ((\<exists>(i, q, e) \<in> set walkUntracked. e \<noteq> None \<and> GetIndex 7 q < 0)
          \<or> \<not> (\<exists>(i, q, e) \<in> set walkUntracked. e \<noteq> None))"
    by (simp add: example_defs)
  have total: "Len (msg entry3) \<le> 3"
    by (simp add: example_defs)
  have plain: "\<forall>n walk. Failure ''down'' \<noteq> WalkableError n walk"
    by simp
  have empty: "resendMessages delivered3 = []"
    by (simp add: delivered3_def NewAsyncPreserver_def)
  note at1 = batch_ack_failure_resend [OF multi, of 1 walkSecondFailed 7 delivered3 100 "Failure ''down''"]
  note at2 = batch_ack_failure_resend [OF multi, of 2 walkUntracked 7 delivered3 100 "Failure ''down''"]
  note at3 = batch_ack_failure_resend [OF multi, of 3 walkSecondFailed 7 delivered3 100 "Failure ''down''"]
  note a = at1 [THEN conjunct1, THEN mp, OF located, unfolded subset empty append_Nil]
  note b = at2 [THEN conjunct2, THEN conjunct1, THEN mp, OF untracked, unfolded empty append_Nil]
  note c = at3 [THEN conjunct2, THEN conjunct2, THEN conjunct1, THEN mp, OF total, unfolded empty append_Nil]
  note d = at1 [THEN conjunct2, THEN conjunct2, THEN conjunct2, THEN conjunct1, THEN mp, OF plain,
      unfolded empty append_Nil]
  show ?thesis by (intro conjI multi read a b c d)
qed

text \<open>
  A second call of the same closure, which the caller is not to make, starts from
  the batch that the first call assigned: after the partial failure above, a
  second failure appends the one part again and not the batch of three.
\<close>

lemma second_call_of_closure:
  "resendMessages (ackState (callAck
      (ackState (callAck delivered3 (BatchAck 7 entry3) (Some (WalkableError 1 walkSecondFailed))))
      (afterAck (BatchAck 7 entry3) (Some (WalkableError 1 walkSecondFailed)))
      (Some (WalkableError 1 walkSecondFailed))))
   = [entry3\<lparr>msg := [partB]\<rparr>, entry3\<lparr>msg := [partB]\<rparr>]"
  by (simp add: resendBatch_def enqueue_def walkFn_def Get_def QuickBatch_nil_def delivered3_def
      NewAsyncPreserver_def example_defs)

text \<open>
  C2. The wrapped acknowledgement of a delivered batch, of one part or of several:
  with a failure it appends one entry to the queue, which keeps the original
  acknowledgement, the attempts and the backoff of the delivered entry, returns
  nil, hands nothing to the original acknowledgement and leaves the counter as it
  is; with success it takes one from the counter, leaves the queue as it is, hands
  the success to the original acknowledgement once and returns what that returned.
\<close>

theorem wrapped_ack_absorbs_failure:
  "(\<exists>b. callAck p (snd (wrapAckFn a g m)) (Some e) = enqueue p (m\<lparr>msg := b\<rparr>))
   \<and> (\<exists>m'. resendMessages (ackState (callAck p (snd (wrapAckFn a g m)) (Some e)))
             = resendMessages p @ [m']
          \<and> ackFn m' = ackFn m \<and> attempts m' = attempts m \<and> boff m' = boff m)
   \<and> ackReturn (callAck p (snd (wrapAckFn a g m)) (Some e)) = None
   \<and> forwarded (callAck p (snd (wrapAckFn a g m)) (Some e)) = []
   \<and> pendingMessages (ackState (callAck p (snd (wrapAckFn a g m)) (Some e))) = pendingMessages p
   \<and> pendingMessages (ackState (callAck p (snd (wrapAckFn a g m)) None)) = pendingMessages p - 1
   \<and> (- (2 ^ 63) < sint (pendingMessages p) \<longrightarrow>
        sint (pendingMessages (ackState (callAck p (snd (wrapAckFn a g m)) None)))
          = sint (pendingMessages p) - 1)
   \<and> resendMessages (ackState (callAck p (snd (wrapAckFn a g m)) None)) = resendMessages p
   \<and> forwarded (callAck p (snd (wrapAckFn a g m)) None) = [None]
   \<and> ackReturn (callAck p (snd (wrapAckFn a g m)) None) = ackFn m None"
proof (cases "Len (msg m) = 1")
  case True
  have "callAck p (SingleAck m) (Some e) = enqueue p (m\<lparr>msg := msg m\<rparr>)"
    by simp
  then have "\<exists>b. callAck p (SingleAck m) (Some e) = enqueue p (m\<lparr>msg := b\<rparr>)" ..
  then show ?thesis using True
    by (simp add: wrapAckFn_single enqueue_def forward_def sint_dec)
next
  case False
  have "\<exists>b. callAck p (BatchAck g m) (Some e) = enqueue p (m\<lparr>msg := b\<rparr>)"
    by auto
  then show ?thesis using False
    by (simp add: wrapAckFn_multi enqueue_def forward_def sint_dec)
qed

theorem wrapped_ack_absorbs_failure_witness:
  "- (2 ^ 63) < sint (pendingMessages (NewAsyncPreserver\<lparr>pendingMessages := 1\<rparr>))
   \<and> sint (pendingMessages (ackState
        (callAck (NewAsyncPreserver\<lparr>pendingMessages := 1\<rparr>) (snd (wrapAckFn 100 7 entry3)) None))) = 0
   \<and> resendMessages (ackState
        (callAck (NewAsyncPreserver\<lparr>pendingMessages := 1\<rparr>) (snd (wrapAckFn 100 7 entry3))
           (Some (Failure ''down'')))) = [entry3]
   \<and> ackReturn (callAck (NewAsyncPreserver\<lparr>pendingMessages := 1\<rparr>) (snd (wrapAckFn 100 7 entry3))
           (Some (Failure ''down''))) = None"
proof -
  have h: "snd (wrapAckFn 100 7 entry3) = BatchAck 7 entry3"
    by (simp add: wrapAckFn_multi example_defs)
  show ?thesis
    using wrapped_ack_absorbs_failure [of "NewAsyncPreserver\<lparr>pendingMessages := 1\<rparr>" 100 7 entry3 "Failure ''down''"]
    by (simp add: h NewAsyncPreserver_def enqueue_def resendBatch_def)
qed

section \<open>Connect and Close\<close>

text \<open>
  C4. When the Connect of the source returns the closed error and the counter of
  batches in flight is positive, the Connect of the decorator returns nil and sets
  the closed flag, leaving the rest of the state as it is. In every other case
  (no error, another error, or the closed error with no positive counter) it
  returns what the source returned and the state is unchanged.
\<close>

theorem Connect_suppresses_closed:
  "(errorsIsClosed err \<and> 0 < sint (pendingMessages p) \<longrightarrow>
      snd (Connect p err) = None \<and> fst (Connect p err) = p\<lparr>inputClosed := 1\<rparr>
      \<and> 0 < sint (inputClosed (fst (Connect p err))))
   \<and> (\<not> (errorsIsClosed err \<and> 0 < sint (pendingMessages p)) \<longrightarrow>
      snd (Connect p err) = err \<and> fst (Connect p err) = p)"
  by (simp add: Connect_def word_sless_alt)

theorem Connect_suppresses_closed_witness:
  "(errorsIsClosed (Some (Wrapped ''eof'' ErrTypeClosed))
      \<and> 0 < sint (pendingMessages (NewAsyncPreserver\<lparr>pendingMessages := 2\<rparr>)))
   \<and> snd (Connect (NewAsyncPreserver\<lparr>pendingMessages := 2\<rparr>) (Some (Wrapped ''eof'' ErrTypeClosed))) = None
   \<and> inputClosed (fst (Connect (NewAsyncPreserver\<lparr>pendingMessages := 2\<rparr>) (Some (Wrapped ''eof'' ErrTypeClosed)))) = 1
   \<and> \<not> (errorsIsClosed (Some ErrTypeClosed) \<and> 0 < sint (pendingMessages NewAsyncPreserver))
   \<and> Connect NewAsyncPreserver (Some ErrTypeClosed) = (NewAsyncPreserver, Some ErrTypeClosed)
   \<and> \<not> (errorsIsClosed (Some (Failure ''refused''))
          \<and> 0 < sint (pendingMessages (NewAsyncPreserver\<lparr>pendingMessages := 2\<rparr>)))
   \<and> snd (Connect (NewAsyncPreserver\<lparr>pendingMessages := 2\<rparr>) (Some (Failure ''refused'')))
       = Some (Failure ''refused'')"
  using Connect_suppresses_closed [of "Some (Wrapped ''eof'' ErrTypeClosed)" "NewAsyncPreserver\<lparr>pendingMessages := 2\<rparr>"]
    Connect_suppresses_closed [of "Some ErrTypeClosed" NewAsyncPreserver]
    Connect_suppresses_closed [of "Some (Failure ''refused'')" "NewAsyncPreserver\<lparr>pendingMessages := 2\<rparr>"]
  by (simp add: errorsIsClosed_def NewAsyncPreserver_def prod_eq_iff)

text \<open>
  C10. Close returns what the Close of the source returned and changes nothing in
  the decorator: the queue, the counter and the closed flag are as before, so it
  neither empties the queue nor waits for the counter.
\<close>

theorem Close_delegates:
  "snd (Close p err) = err \<and> fst (Close p err) = p
   \<and> resendMessages (fst (Close p err)) = resendMessages p
   \<and> pendingMessages (fst (Close p err)) = pendingMessages p
   \<and> inputClosed (fst (Close p err)) = inputClosed p"
  by (simp add: Close_def)

section \<open>Reading\<close>

lemma ReadBatch_queue:
  "resendMessages p = m # rest \<Longrightarrow>
   ReadBatch p env = redeliver (p\<lparr>resendMessages := rest\<rparr>) env m"
  by (cases rest) (simp_all add: ReadBatch_def)

lemma ReadBatch_fresh:
  "resendMessages p = [] \<Longrightarrow> ReadBatch p env = readFresh p env"
  by (simp add: ReadBatch_def)

lemma deliver_eq:
  "deliver p env m =
     (p, Some (Inr (ShallowCopy (copyAt env) (fst (wrapAckFn (trackAt env) (newGroup env) m)),
                    snd (wrapAckFn (trackAt env) (newGroup env) m))))"
  by (simp add: deliver_def split_beta)

lemma content_NewSortGroup: "map content (snd (NewSortGroup a g m)) = map content m"
proof -
  have "map content (snd (NewSortGroup a g m)) = map content (map snd (enumerate 0 m))"
    by (simp add: NewSortGroup_def split_beta comp_def del: map_snd_enumerate)
  then show ?thesis by simp
qed

lemma content_ShallowCopy: "map content (ShallowCopy a m) = map content m"
proof -
  have "map content (ShallowCopy a m) = map content (map snd (enumerate 0 m))"
    by (simp add: ShallowCopy_def split_beta comp_def del: map_snd_enumerate)
  then show ?thesis by simp
qed

lemma ident_ShallowCopy: "map ident (ShallowCopy a m) = map (\<lambda>i. a + i) [0..<length m]"
proof -
  have "map ident (ShallowCopy a m) = map (\<lambda>i. a + i) (map fst (enumerate 0 m))"
    by (simp add: ShallowCopy_def split_beta comp_def del: map_fst_enumerate)
  then show ?thesis by simp
qed

lemma length_ShallowCopy: "length (ShallowCopy a m) = length m"
  by (simp add: ShallowCopy_def)

lemma length_NewSortGroup: "length (snd (NewSortGroup a g m)) = length m"
  by (simp add: NewSortGroup_def)

lemma content_wrapAckFn:
  "map content (ShallowCopy b (fst (wrapAckFn a g m))) = map content (msg m)"
  by (cases "Len (msg m) = 1")
    (simp_all add: wrapAckFn_single wrapAckFn_multi content_ShallowCopy content_NewSortGroup)

lemma length_wrapAckFn: "length (fst (wrapAckFn a g m)) = length (msg m)"
  by (cases "Len (msg m) = 1")
    (simp_all add: wrapAckFn_single wrapAckFn_multi length_NewSortGroup)

lemma backoffDelay_keeps:
  "msg (snd (backoffDelay m env)) = msg m \<and> ackFn (snd (backoffDelay m env)) = ackFn m
   \<and> attempts (snd (backoffDelay m env)) = attempts m + 1"
  by (simp add: backoffDelay_def Let_def split_beta)

lemma redeliver_cases:
  "redeliver p env m = deliver p env (snd (backoffDelay m env))
   \<or> (\<exists>c tout. fst (backoffDelay m env) = Some tout \<and> sleepEnd env = Some c
          \<and> redeliver p env m = (p, Some (Inl (ctxErr c))))"
  by (auto simp: redeliver_def split_beta split: option.splits)

lemma redeliver_delivers:
  assumes "redeliver p env m = (p', Some (Inr (sent, h)))"
  shows "p' = p \<and> ackEntry h = snd (backoffDelay m env)
    \<and> sent = ShallowCopy (copyAt env) (fst (wrapAckFn (trackAt env) (newGroup env) (ackEntry h)))
    \<and> h = snd (wrapAckFn (trackAt env) (newGroup env) (ackEntry h))"
proof -
  from redeliver_cases [of p env m] assms
  have "deliver p env (snd (backoffDelay m env)) = (p', Some (Inr (sent, h)))"
    by auto
  then show ?thesis by (auto simp: deliver_eq ackEntry_wrapAckFn)
qed

lemma readFresh_delivers:
  assumes "readFresh p env = (p', Some (Inr (sent, h)))"
  shows "\<exists>b f. sourceRead env = Inr (b, f) \<and> ackEntry h = newResendMsg b f
    \<and> sent = ShallowCopy (copyAt env) (fst (wrapAckFn (trackAt env) (newGroup env) (ackEntry h)))
    \<and> h = snd (wrapAckFn (trackAt env) (newGroup env) (ackEntry h))
    \<and> p' = p\<lparr>resendInterrupt := Some (scope env), pendingMessages := pendingMessages p + 1\<rparr>"
proof -
  let ?p = "p\<lparr>resendInterrupt := Some (scope env)\<rparr>"
  let ?r = "if 0 <s inputClosed ?p then Inl ErrTypeClosed else sourceRead env"
  from assms obtain b f where r: "?r = Inr (b, f)"
    by (cases ?r) (auto simp: readFresh_def Let_def split: if_splits option.splits)
  then have src: "sourceRead env = Inr (b, f)" by (simp split: if_splits)
  from r assms have "deliver (?p\<lparr>pendingMessages := pendingMessages ?p + 1\<rparr>) env
      (newResendMsg b f) = (p', Some (Inr (sent, h)))"
    by (simp add: readFresh_def Let_def)
  then show ?thesis using src
    by (auto simp: deliver_eq ackEntry_wrapAckFn)
qed

lemma ReadBatch_delivery:
  assumes "ReadBatch p env = (p', Some (Inr (sent, h)))"
  shows "sent = ShallowCopy (copyAt env) (fst (wrapAckFn (trackAt env) (newGroup env) (ackEntry h)))"
    and "h = snd (wrapAckFn (trackAt env) (newGroup env) (ackEntry h))"
proof -
  have "sent = ShallowCopy (copyAt env) (fst (wrapAckFn (trackAt env) (newGroup env) (ackEntry h)))
      \<and> h = snd (wrapAckFn (trackAt env) (newGroup env) (ackEntry h))"
  proof (cases "resendMessages p")
    case Nil
    with assms have "readFresh p env = (p', Some (Inr (sent, h)))"
      by (simp add: ReadBatch_fresh)
    from readFresh_delivers [OF this] show ?thesis by blast
  next
    case (Cons m rest)
    with assms have "redeliver (p\<lparr>resendMessages := rest\<rparr>) env m = (p', Some (Inr (sent, h)))"
      by (simp add: ReadBatch_queue)
    from redeliver_delivers [OF this] show ?thesis by blast
  qed
  then show "sent = ShallowCopy (copyAt env) (fst (wrapAckFn (trackAt env) (newGroup env) (ackEntry h)))"
    and "h = snd (wrapAckFn (trackAt env) (newGroup env) (ackEntry h))"
    by blast+
qed

lemma ReadBatch_shares:
  assumes "ReadBatch p env = (p', Some (Inr (sent, h)))"
  shows "map content sent = map content (msg (ackEntry h))"
  using ReadBatch_delivery(1) [OF assms] content_wrapAckFn by metis

lemma ReadBatch_redelivers_head:
  assumes "resendMessages p = m # rest"
    and "ReadBatch p env = (p', Some (Inr (sent, h)))"
  shows "map content sent = map content (msg m) \<and> msg (ackEntry h) = msg m
    \<and> ackFn (ackEntry h) = ackFn m"
proof -
  from assms have "redeliver (p\<lparr>resendMessages := rest\<rparr>) env m = (p', Some (Inr (sent, h)))"
    by (simp add: ReadBatch_queue)
  from redeliver_delivers [OF this]
  have "ackEntry h = snd (backoffDelay m env)" by simp
  then have "msg (ackEntry h) = msg m \<and> ackFn (ackEntry h) = ackFn m"
    by (simp add: backoffDelay_keeps)
  then show ?thesis using ReadBatch_shares [OF assms(2)] by simp
qed

subsection \<open>The queue comes first\<close>

lemma ReadBatch_serves_queue_first:
  assumes "resendMessages p = m # rest"
  shows "resendMessages (fst (ReadBatch p env)) = rest"
    and "ReadBatch p (env\<lparr>sourceRead := src\<rparr>) = ReadBatch p env"
    and "(\<exists>sent h. snd (ReadBatch p env) = Some (Inr (sent, h)) \<and> msg (ackEntry h) = msg m
            \<and> ackFn (ackEntry h) = ackFn m \<and> map content sent = map content (msg m))
         \<or> (\<exists>c tout. fst (backoffDelay m env) = Some tout \<and> sleepEnd env = Some c
            \<and> snd (ReadBatch p env) = Some (Inl (ctxErr c)))"
proof -
  let ?p = "p\<lparr>resendMessages := rest\<rparr>"
  let ?m = "snd (backoffDelay m env)"
  have rd: "ReadBatch p env = redeliver ?p env m"
    by (rule ReadBatch_queue [OF assms])
  from redeliver_cases [of ?p env m]
  have st: "fst (redeliver ?p env m) = ?p"
    by (auto simp: deliver_eq)
  then show "resendMessages (fst (ReadBatch p env)) = rest"
    by (simp add: rd)
  show "ReadBatch p (env\<lparr>sourceRead := src\<rparr>) = ReadBatch p env"
    using assms
    by (simp add: ReadBatch_queue redeliver_def backoffDelay_def deliver_def Let_def split_beta
        split: option.splits)
  from redeliver_cases [of ?p env m]
  show "(\<exists>sent h. snd (ReadBatch p env) = Some (Inr (sent, h)) \<and> msg (ackEntry h) = msg m
            \<and> ackFn (ackEntry h) = ackFn m \<and> map content sent = map content (msg m))
         \<or> (\<exists>c tout. fst (backoffDelay m env) = Some tout \<and> sleepEnd env = Some c
            \<and> snd (ReadBatch p env) = Some (Inl (ctxErr c)))"
  proof
    assume d: "redeliver ?p env m = deliver ?p env ?m"
    let ?sent = "ShallowCopy (copyAt env) (fst (wrapAckFn (trackAt env) (newGroup env) ?m))"
    let ?h = "snd (wrapAckFn (trackAt env) (newGroup env) ?m)"
    have "snd (ReadBatch p env) = Some (Inr (?sent, ?h))"
      by (simp add: rd d deliver_eq)
    moreover have "msg (ackEntry ?h) = msg m \<and> ackFn (ackEntry ?h) = ackFn m
        \<and> map content ?sent = map content (msg m)"
      by (simp add: ackEntry_wrapAckFn content_wrapAckFn backoffDelay_keeps)
    ultimately show ?thesis by blast
  next
    assume "\<exists>c tout. fst (backoffDelay m env) = Some tout \<and> sleepEnd env = Some c
        \<and> redeliver ?p env m = (?p, Some (Inl (ctxErr c)))"
    then show ?thesis by (auto simp: rd)
  qed
qed

lemma callAck_appends:
  "\<exists>m'. resendMessages (ackState (callAck p h (Some e))) = resendMessages p @ [m']"
  by (cases h) (simp_all add: enqueue_def)

subsection \<open>The backoff of an entry\<close>

text \<open>
  The backoff that \<^verbatim>\<open>newResendMsg\<close> makes keeps the current interval that the
  constructor set from the default initial interval: the four assignments that
  follow the constructor do not touch it.
\<close>

lemma boff_newResendMsg:
  "boff (newResendMsg b f) =
     \<lparr>InitialInterval = Millisecond, RandomizationFactor = 1 / 2, Multiplier = float64_1_1,
      MaxInterval = Second, MaxElapsedTime = 0, Stop = - 1,
      currentInterval = 500 * Millisecond\<rparr>"
  by (simp add: newResendMsg_def NewExponentialBackOff_def Reset_def)

lemma newResendMsg_settings:
  "InitialInterval (boff (newResendMsg b f)) = Millisecond
   \<and> MaxInterval (boff (newResendMsg b f)) = Second
   \<and> Multiplier (boff (newResendMsg b f)) = float64_1_1
   \<and> MaxElapsedTime (boff (newResendMsg b f)) = 0
   \<and> RandomizationFactor (boff (newResendMsg b f)) = 1 / 2
   \<and> currentInterval (boff (newResendMsg b f)) = 500 * Millisecond
   \<and> attempts (newResendMsg b f) = 0"
  by (simp add: boff_newResendMsg) (simp add: newResendMsg_def)

lemma toDuration_fraction [simp]:
  "toDuration (numeral a / numeral b) = numeral a div numeral b"
proof -
  have "\<lfloor>(of_int (numeral a) :: rat) / of_int (numeral b)\<rfloor> = numeral a div numeral b"
    by (rule floor_divide_of_int_eq)
  then show ?thesis by (simp add: toDuration_def)
qed

lemma toDuration_whole [simp]: "toDuration (numeral a) = numeral a"
  by (simp add: toDuration_def)

lemma NextBackOff_unlimited:
  assumes "MaxElapsedTime b = 0"
  shows "NextBackOff b r t =
    (getRandomValueFromInterval (RandomizationFactor b) r (currentInterval b),
     incrementCurrentInterval b)"
  using assms by (simp add: NextBackOff_def incrementCurrentInterval_def Let_def)


lemma backOffAt_eq:
  "backOffAt c =
     \<lparr>InitialInterval = Millisecond, RandomizationFactor = 1 / 2, Multiplier = float64_1_1,
      MaxInterval = Second, MaxElapsedTime = 0, Stop = - 1, currentInterval = c\<rparr>"
  by (simp add: backOffAt_def entry1_def boff_newResendMsg)

lemma boff_entry1: "boff entry1 = backOffAt (500 * Millisecond)"
  by (simp add: backOffAt_eq entry1_def boff_newResendMsg)

lemma NextBackOff_backOffAt:
  "NextBackOff (backOffAt c) r t =
     (getRandomValueFromInterval (1 / 2) r c, incrementCurrentInterval (backOffAt c))"
  by (simp add: NextBackOff_unlimited backOffAt_eq)

lemma increments:
  "incrementCurrentInterval (backOffAt 500000000) = backOffAt 550000000"
  "incrementCurrentInterval (backOffAt 550000000) = backOffAt 605000000"
  "incrementCurrentInterval (backOffAt 605000000) = backOffAt 665500000"
  "incrementCurrentInterval (backOffAt 665500000) = backOffAt 732050000"
  "incrementCurrentInterval (backOffAt 732050000) = backOffAt 805255000"
  "incrementCurrentInterval (backOffAt 805255000) = backOffAt 885780500"
  "incrementCurrentInterval (backOffAt 885780500) = backOffAt 974358550"
  "incrementCurrentInterval (backOffAt 974358550) = backOffAt 1000000000"
  "incrementCurrentInterval (backOffAt 1000000000) = backOffAt 1000000000"
  by (simp_all add: incrementCurrentInterval_def backOffAt_eq float64_1_1_def Second_def)

lemma backoffDelay_early:
  assumes "attempts m = 0 \<or> attempts m = 1"
  shows "backoffDelay m env = (None, m\<lparr>attempts := attempts m + 1\<rparr>)"
proof -
  from assms have "\<not> 2 <s attempts m + 1"
    by (auto simp: word_sless_alt)
  then show ?thesis by (simp add: backoffDelay_def)
qed

lemma backoffDelay_late:
  assumes "2 <s attempts m + 1" and "boff m = backOffAt c"
    and "0 < getRandomValueFromInterval (1 / 2) (random env) c"
  shows "backoffDelay m env =
    (Some (getRandomValueFromInterval (1 / 2) (random env) c),
     m\<lparr>attempts := attempts m + 1, boff := incrementCurrentInterval (backOffAt c)\<rparr>)"
  using assms by (simp add: backoffDelay_def NextBackOff_backOffAt)

lemma sample_half [simp]: "random retryEnv = 1 / 2"
  by (simp add: retryEnv_def)

lemma middle_of_interval:
  assumes "0 \<le> k"
  shows "getRandomValueFromInterval (1 / 2) (1 / 2) k = k"
proof -
  let ?x = "of_int k :: rat"
  have e: "?x - 1 / 2 * ?x + 1 / 2 * (?x + 1 / 2 * ?x - (?x - 1 / 2 * ?x) + 1) = ?x + 1 / 2"
    by (simp add: field_simps)
  have f: "toDuration (?x + 1 / 2) = k"
    using assms by (simp add: toDuration_def floor_eq_iff)
  have "(1 / 2 :: rat) \<noteq> 0" by simp
  then show ?thesis
    by (simp only: getRandomValueFromInterval_def Let_def e f if_False)
qed

lemma entryAfter_0: "entryAfter 0 = entry1"
  by (simp add: entryAfter_def)

lemma entryAfter_next:
  assumes "k = Suc n"
  shows "entryAfter k = snd (backoffDelay (entryAfter n) retryEnv)"
  using assms by (simp add: entryAfter_def)

lemma attempts_entry1: "attempts entry1 = 0"
  by (simp add: entry1_def newResendMsg_def)

lemma entryAfter_1: "entryAfter (Suc 0) = entry1\<lparr>attempts := 1\<rparr>"
  using entryAfter_next [of "Suc 0" 0] by (simp add: entryAfter_0 backoffDelay_early attempts_entry1)

lemma entryAfter_2: "entryAfter 2 = entry1\<lparr>attempts := 2\<rparr>"
  using entryAfter_next [of 2 1] by (simp add: entryAfter_1 backoffDelay_early)

lemma entryAfter_3: "entryAfter 3 = entry1\<lparr>attempts := 3, boff := backOffAt 550000000\<rparr>"
  using entryAfter_next [of 3 2]
  by (simp add: entryAfter_2 backoffDelay_late [where c = 500000000] middle_of_interval
      boff_entry1 Millisecond_def increments word_sless_alt)

lemma entryAfter_4: "entryAfter 4 = entry1\<lparr>attempts := 4, boff := backOffAt 605000000\<rparr>"
  using entryAfter_next [of 4 3]
  by (simp add: entryAfter_3 backoffDelay_late [where c = 550000000] middle_of_interval
      increments word_sless_alt)

lemma entryAfter_5: "entryAfter 5 = entry1\<lparr>attempts := 5, boff := backOffAt 665500000\<rparr>"
  using entryAfter_next [of 5 4]
  by (simp add: entryAfter_4 backoffDelay_late [where c = 605000000] middle_of_interval
      increments word_sless_alt)

lemma entryAfter_6: "entryAfter 6 = entry1\<lparr>attempts := 6, boff := backOffAt 732050000\<rparr>"
  using entryAfter_next [of 6 5]
  by (simp add: entryAfter_5 backoffDelay_late [where c = 665500000] middle_of_interval
      increments word_sless_alt)

lemma entryAfter_7: "entryAfter 7 = entry1\<lparr>attempts := 7, boff := backOffAt 805255000\<rparr>"
  using entryAfter_next [of 7 6]
  by (simp add: entryAfter_6 backoffDelay_late [where c = 732050000] middle_of_interval
      increments word_sless_alt)

lemma entryAfter_8: "entryAfter 8 = entry1\<lparr>attempts := 8, boff := backOffAt 885780500\<rparr>"
  using entryAfter_next [of 8 7]
  by (simp add: entryAfter_7 backoffDelay_late [where c = 805255000] middle_of_interval
      increments word_sless_alt)

lemma entryAfter_9: "entryAfter 9 = entry1\<lparr>attempts := 9, boff := backOffAt 974358550\<rparr>"
  using entryAfter_next [of 9 8]
  by (simp add: entryAfter_8 backoffDelay_late [where c = 885780500] middle_of_interval
      increments word_sless_alt)

lemma entryAfter_10: "entryAfter 10 = entry1\<lparr>attempts := 10, boff := backOffAt 1000000000\<rparr>"
  using entryAfter_next [of 10 9]
  by (simp add: entryAfter_9 backoffDelay_late [where c = 974358550] middle_of_interval
      increments word_sless_alt)


lemma wait_third:
  assumes "random env = 1 / 2"
  shows "backoffDelay (entry1\<lparr>attempts := 2\<rparr>) env =
    (Some (500 * Millisecond), entry1\<lparr>attempts := 3, boff := backOffAt 550000000\<rparr>)"
proof -
  have "getRandomValueFromInterval (1 / 2) (random env) 500000000 = 500000000"
    unfolding assms by (simp add: middle_of_interval)
  then show ?thesis
    by (simp add: backoffDelay_def boff_entry1 NextBackOff_backOffAt increments
        Millisecond_def word_sless_alt)
qed

text \<open>
  Whatever the random sample, the first wait of an entry, at its third delivery
  from the queue, is between 250 ms and 750 ms.
\<close>

lemma first_wait_bounds:
  assumes "0 \<le> r" and "r < 1"
  shows "250 * Millisecond \<le> getRandomValueFromInterval (1 / 2) r (500 * Millisecond)
    \<and> getRandomValueFromInterval (1 / 2) r (500 * Millisecond) \<le> 750 * Millisecond"
proof -
  let ?x = "250000000 + r * 500000001"
  have val: "getRandomValueFromInterval (1 / 2) r (500 * Millisecond) = toDuration ?x"
    by (simp add: getRandomValueFromInterval_def Millisecond_def Let_def)
  have lo: "250000000 \<le> ?x" using assms by simp
  have hi: "?x < 750000001" using assms by simp
  from lo have td: "toDuration ?x = \<lfloor>?x\<rfloor>" by (simp add: toDuration_def)
  from lo have l: "250000000 \<le> \<lfloor>?x\<rfloor>" by (simp add: le_floor_iff)
  from hi have h: "\<lfloor>?x\<rfloor> \<le> 750000000" by (simp add: floor_le_iff)
  show ?thesis
    unfolding val td using l h by (simp add: Millisecond_def)
qed

lemma third_attempt_wait:
  assumes "0 \<le> random env" and "random env < 1"
  shows "\<exists>t. fst (backoffDelay (entryAfter 2) env) = Some t
    \<and> 250 * Millisecond \<le> t \<and> t \<le> 750 * Millisecond"
proof -
  let ?t = "getRandomValueFromInterval (1 / 2) (random env) (500 * Millisecond)"
  from first_wait_bounds [OF assms]
  have b: "250 * Millisecond \<le> ?t \<and> ?t \<le> 750 * Millisecond" .
  then have "0 < ?t" by (simp add: Millisecond_def)
  then have "fst (backoffDelay (entryAfter 2) env) = Some ?t"
    by (simp add: entryAfter_2 backoffDelay_def NextBackOff_backOffAt boff_entry1 word_sless_alt)
  with b show ?thesis by blast
qed

lemma redeliver_without_delay:
  assumes "attempts m = 0 \<or> attempts m = 1"
  shows "redeliver p env m = deliver p env (m\<lparr>attempts := attempts m + 1\<rparr>)"
  by (simp add: redeliver_def backoffDelay_early [OF assms])

lemma redeliver_sleep_cancelled:
  assumes "fst (backoffDelay m env) = Some tout" and "sleepEnd env = Some c"
  shows "redeliver p env m = (p, Some (Inl (ctxErr c)))"
  using assms by (simp add: redeliver_def split_beta)

subsection \<open>A batch that fails again and again\<close>

lemmas step_defs = readStep_def ackStep_def ReadBatch_def redeliver_def backoffDelay_def
  readFresh_def deliver_eq wrapAckFn_def wrapSingleAckFn_def wrapBatchAckFn_def
  newResendMsg_def enqueue_def forward_def initial_def NewAsyncPreserver_def Len_def
  ShallowCopy_def word_sless_alt

lemma failedTwice_eq:
  "failedTwice = \<lparr>dec = \<lparr>resendMessages = [entry1\<lparr>attempts := 2\<rparr>], resendInterrupt = Some 1,
       pendingMessages = 1, inputClosed = 0\<rparr>, outstanding = [], lost = 0\<rparr>"
  by (simp add: failedTwice_def freshEnv_def freshEnv3_def retryEnv_def entry1_def partA_def
      step_defs)

lemma reachable_failedTwice: "reachable failedTwice"
  unfolding failedTwice_def
  by (intro reachable.intros)
    (simp_all add: freshEnv_def freshEnv3_def retryEnv_def partA_def step_defs)

lemma length_entry1: "Len (msg entry1) = 1"
  by (simp add: entry1_def newResendMsg_def Len_def)

lemma third_delivery:
  "ReadBatch (dec failedTwice) retryEnv =
     ((dec failedTwice)\<lparr>resendMessages := []\<rparr>,
      Some (Inr (ShallowCopy 400 [partA], SingleAck (entryAfter 3))))"
proof -
  have "redeliver ((dec failedTwice)\<lparr>resendMessages := []\<rparr>) retryEnv (entry1\<lparr>attempts := 2\<rparr>)
      = deliver ((dec failedTwice)\<lparr>resendMessages := []\<rparr>) retryEnv (entryAfter 3)"
    by (simp add: redeliver_def wait_third entryAfter_3) (simp add: retryEnv_def)
  moreover have "wrapAckFn 300 8 (entryAfter 3) = ([partA], SingleAck (entryAfter 3))"
    using length_entry1
    by (simp add: wrapAckFn_single entryAfter_3) (simp add: entry1_def newResendMsg_def)
  ultimately show ?thesis
    by (simp add: ReadBatch_queue [where m = "entry1\<lparr>attempts := 2\<rparr>" and rest = "[]"]
        failedTwice_eq deliver_eq)
      (simp add: retryEnv_def)
qed

lemma failedThrice_eq:
  "failedThrice = \<lparr>dec = \<lparr>resendMessages = [entryAfter 3], resendInterrupt = Some 1,
       pendingMessages = 1, inputClosed = 0\<rparr>, outstanding = [], lost = 0\<rparr>"
  by (simp add: failedThrice_def readStep_def ackStep_def third_delivery enqueue_def)
    (simp add: failedTwice_eq)

text \<open>
  The decorator reaches, for every \<open>n\<close>, the state in which the entry that was
  delivered again \<open>n\<close> times is alone on the queue and the caller holds nothing.
\<close>

lemma msg_entryAfter: "msg (entryAfter n) = [partA]"
proof (induction n)
  case 0
  then show ?case by (simp add: entryAfter_0 entry1_def newResendMsg_def)
next
  case (Suc n)
  then show ?case by (simp add: entryAfter_next [of "Suc n" n] backoffDelay_keeps)
qed

lemma reachable_entryAfter:
  "\<exists>c. reachable c \<and> resendMessages (dec c) = [entryAfter n] \<and> outstanding c = []"
proof (induction n)
  case 0
  let ?c = "ackStep (readStep initial freshEnv) 0 (Some (Failure ''down''))"
  have "reachable ?c"
    by (intro reachable.intros)
      (simp_all add: freshEnv_def freshEnv3_def partA_def step_defs)
  moreover have "resendMessages (dec ?c) = [entryAfter 0] \<and> outstanding ?c = []"
    by (simp add: entryAfter_0 entry1_def freshEnv_def freshEnv3_def partA_def step_defs)
  ultimately show ?case by blast
next
  case (Suc n)
  then obtain c where c: "reachable c" "resendMessages (dec c) = [entryAfter n]"
    "outstanding c = []" by blast
  let ?p = "(dec c)\<lparr>resendMessages := []\<rparr>"
  let ?m = "entryAfter (Suc n)"
  let ?r = "readStep c retryEnv"
  have m: "?m = snd (backoffDelay (entryAfter n) retryEnv)"
    by (rule entryAfter_next) simp
  have "sleepEnd retryEnv = None" by (simp add: retryEnv_def)
  then have "redeliver ?p retryEnv (entryAfter n) = deliver ?p retryEnv ?m"
    by (simp add: redeliver_def m split_beta split: option.splits)
  moreover have "wrapAckFn (trackAt retryEnv) (newGroup retryEnv) ?m = ([partA], SingleAck ?m)"
    by (simp add: wrapAckFn_single msg_entryAfter Len_def)
  ultimately have rd: "ReadBatch (dec c) retryEnv
      = (?p, Some (Inr (ShallowCopy (copyAt retryEnv) [partA], SingleAck ?m)))"
    using c(2) by (simp add: ReadBatch_queue [where m = "entryAfter n" and rest = "[]"] deliver_eq)
  then have r: "dec ?r = ?p" "outstanding ?r = [SingleAck ?m]"
    using c(3) by (simp_all add: readStep_def)
  have "reachable ?r" by (rule reach_read [OF c(1)])
  then have "reachable (ackStep ?r 0 (Some (Failure ''down'')))"
    by (rule reach_ack) (simp add: r)
  moreover have "resendMessages (dec (ackStep ?r 0 (Some (Failure ''down'')))) = [?m]
      \<and> outstanding (ackStep ?r 0 (Some (Failure ''down''))) = []"
    by (simp add: ackStep_def r enqueue_def)
  ultimately show ?case by blast
qed

text \<open>
  C3. A read looks at the queue first and, when it holds an entry, takes the first
  one and does not call the source; entries are appended at the end, so they leave
  in the order in which they failed. The entry taken is delivered again, unless
  the scope of the caller ends during the backoff wait. This is that case,
  evaluated: a batch of one part has failed three times, the next read takes its
  entry from the queue, the caller cancels during the wait, and the read returns
  the cancellation error. The entry is then neither delivered nor on the queue,
  and the caller holds no acknowledgement for it, while the counter still counts
  it.
\<close>

theorem cancelled_backoff_loses_entry:
  "reachable failedTwice
   \<and> resendMessages (dec failedTwice) = [entry1\<lparr>attempts := 2\<rparr>]
   \<and> ReadBatch (dec failedTwice) cancelledEnv
       = ((dec failedTwice)\<lparr>resendMessages := []\<rparr>, Some (Inl Canceled))
   \<and> reachable (readStep failedTwice cancelledEnv)
   \<and> resendMessages (dec (readStep failedTwice cancelledEnv)) = []
   \<and> outstanding (readStep failedTwice cancelledEnv) = []
   \<and> pendingMessages (dec (readStep failedTwice cancelledEnv)) = 1"
proof -
  have "random cancelledEnv = 1 / 2" "sleepEnd cancelledEnv = Some CallerCancelled"
    by (simp_all add: cancelledEnv_def retryEnv_def)
  then have "redeliver ((dec failedTwice)\<lparr>resendMessages := []\<rparr>) cancelledEnv
      (entry1\<lparr>attempts := 2\<rparr>)
      = ((dec failedTwice)\<lparr>resendMessages := []\<rparr>, Some (Inl Canceled))"
    by (simp add: redeliver_def wait_third)
  then have rd: "ReadBatch (dec failedTwice) cancelledEnv
       = ((dec failedTwice)\<lparr>resendMessages := []\<rparr>, Some (Inl Canceled))"
    by (simp add: ReadBatch_queue [where m = "entry1\<lparr>attempts := 2\<rparr>" and rest = "[]"]
        failedTwice_eq)
  have "reachable (readStep failedTwice cancelledEnv)"
    by (rule reach_read [OF reachable_failedTwice])
  then show ?thesis
    using reachable_failedTwice rd by (simp add: readStep_def failedTwice_eq)
qed

text \<open>
  C7. The first and the second delivery of an entry from the queue wait for
  nothing, and from the third on the read waits for the delay that the backoff
  returns; no elapsed time stops it, and the end of the scope of the caller cuts
  the wait short. The delays are not the ones of the claim. The constructor of the
  backoff has set its current interval from the default initial interval of 500 ms
  before line 26 assigns 1 ms to the setting, and nothing resets it; and the
  randomization factor keeps its default of one half. This is one entry that fails
  each time, evaluated: its third delivery, with the random sample in the middle,
  waits 500 ms and not 1 ms; its fourth, with the sample 0, waits 275 ms, which is
  less than the wait before it; and once the current interval has reached the
  ceiling of one second, a delivery with the sample 0.75 waits 1250 ms, which is
  above the ceiling. Each of these entries is on the queue in a state that the
  decorator reaches.
\<close>

theorem backoff_waits_not_as_configured:
  "fst (backoffDelay (entryAfter 0) retryEnv) = None
   \<and> fst (backoffDelay (entryAfter 1) retryEnv) = None
   \<and> resendMessages (dec failedTwice) = [entryAfter 2]
   \<and> InitialInterval (boff (entryAfter 2)) = Millisecond
   \<and> fst (backoffDelay (entryAfter 2) retryEnv) = Some (500 * Millisecond)
   \<and> resendMessages (dec failedThrice) = [entryAfter 3]
   \<and> fst (backoffDelay (entryAfter 3) (retryEnv\<lparr>random := 0\<rparr>)) = Some (275 * Millisecond)
   \<and> currentInterval (boff (entryAfter 10)) = Second
   \<and> MaxInterval (boff (entryAfter 10)) = Second
   \<and> fst (backoffDelay (entryAfter 10) (retryEnv\<lparr>random := 3 / 4\<rparr>))
       = Some (1250 * Millisecond)
   \<and> (\<exists>c. reachable c \<and> resendMessages (dec c) = [entryAfter 10] \<and> outstanding c = [])"
proof -
  have a1: "fst (backoffDelay (entryAfter 0) retryEnv) = None"
    by (simp add: entryAfter_0 backoffDelay_early attempts_entry1)
  have a2: "fst (backoffDelay (entryAfter 1) retryEnv) = None"
    by (simp add: entryAfter_1 backoffDelay_early)
  have q2: "resendMessages (dec failedTwice) = [entryAfter 2]"
    by (simp add: failedTwice_eq entryAfter_2)
  have i2: "InitialInterval (boff (entryAfter 2)) = Millisecond"
    by (simp add: entryAfter_2 boff_entry1 backOffAt_eq)
  have a3: "fst (backoffDelay (entryAfter 2) retryEnv) = Some (500 * Millisecond)"
    by (simp add: entryAfter_2 wait_third)
  have q3: "resendMessages (dec failedThrice) = [entryAfter 3]"
    by (simp add: failedThrice_eq)
  have "getRandomValueFromInterval (1 / 2) 0 550000000 = 275000000"
    by (simp add: getRandomValueFromInterval_def)
  then have a4: "fst (backoffDelay (entryAfter 3) (retryEnv\<lparr>random := 0\<rparr>))
      = Some (275 * Millisecond)"
    by (simp add: entryAfter_3 backoffDelay_def NextBackOff_backOffAt word_sless_alt
        Millisecond_def)
  have c10: "currentInterval (boff (entryAfter 10)) = Second
      \<and> MaxInterval (boff (entryAfter 10)) = Second"
    by (simp add: entryAfter_10 backOffAt_eq Second_def)
  have "getRandomValueFromInterval (1 / 2) (3 / 4) 1000000000 = 1250000000"
    by (simp add: getRandomValueFromInterval_def)
  then have a11: "fst (backoffDelay (entryAfter 10) (retryEnv\<lparr>random := 3 / 4\<rparr>))
      = Some (1250 * Millisecond)"
    by (simp add: entryAfter_10 backoffDelay_def NextBackOff_backOffAt word_sless_alt
        Millisecond_def)
  note r10 = reachable_entryAfter [of 10]
  from a1 a2 q2 i2 a3 q3 a4 c10 a11 r10 show ?thesis by blast
qed


subsection \<open>Draining\<close>

lemma drainPoll_ticks:
  "\<forall>k \<in> set ns. 0 < sint k \<Longrightarrow>
   drainPoll w (map TimerFired ns @ evs) = drainPoll (w + int (length ns) * drainPollInterval) evs"
proof (induction ns arbitrary: w)
  case Nil
  then show ?case by simp
next
  case (Cons k ks)
  then have "\<not> k \<le>s 0" by (simp add: word_sle_eq)
  with Cons show ?case by (simp add: algebra_simps)
qed

lemma drainPoll_closed:
  assumes "\<forall>k \<in> set ns. 0 < sint k" and "sint n \<le> 0"
  shows "drainPoll 0 (map TimerFired ns @ TimerFired n # evs) =
    Some (ErrTypeClosed, (int (length ns) + 1) * drainPollInterval)"
  using assms by (simp add: drainPoll_ticks word_sle_eq algebra_simps)

lemma drainPoll_timeout:
  assumes "\<forall>k \<in> set ns. 0 < sint k"
  shows "drainPoll 0 (map TimerFired ns @ CtxDone c # evs) =
    Some (ErrTimeout, int (length ns) * drainPollInterval)"
  using assms by (simp add: drainPoll_ticks)

lemma readFresh_closed_idle:
  assumes "0 < sint (inputClosed p) \<or> (\<exists>e. sourceRead env = Inl e \<and> isClosedErr e)"
    and "sint (pendingMessages p) \<le> 0"
  shows "\<exists>e. readFresh p env = (p\<lparr>resendInterrupt := Some (scope env)\<rparr>, Some (Inl e)) \<and> isClosedErr e"
  using assms by (auto simp: readFresh_def word_sless_alt)

lemma readFresh_closed_draining:
  assumes "0 < sint (inputClosed p) \<or> (\<exists>e. sourceRead env = Inl e \<and> isClosedErr e)"
    and "0 < sint (pendingMessages p)"
  shows "readFresh p env =
    (p\<lparr>resendInterrupt := Some (scope env)\<rparr>,
     map_option (\<lambda>(e, w). Inl e) (drainPoll 0 (polls env)))"
  using assms by (auto simp: readFresh_def word_sless_alt)

text \<open>
  C5. A read with an empty queue that meets the closed condition (the closed flag
  is set, or the source answers with the closed error): when the counter is not
  positive it returns the closed error without entering the loop; when the counter
  is positive it returns what the drain loop returns, which is the closed error
  after the first timer of 10 ms at which the counter is not positive, and the
  timeout error, which differs from the error of the cancelled scope, when the
  scope of the caller ends before that.
\<close>

theorem drain_after_source_closed:
  assumes "resendMessages p = []"
    and "0 < sint (inputClosed p) \<or> (\<exists>e. sourceRead env = Inl e \<and> isClosedErr e)"
  shows
    "(sint (pendingMessages p) \<le> 0 \<longrightarrow>
        (\<exists>e. snd (ReadBatch p env) = Some (Inl e) \<and> isClosedErr e))
     \<and> (0 < sint (pendingMessages p) \<longrightarrow>
        snd (ReadBatch p env) = map_option (\<lambda>(e, w). Inl e) (drainPoll 0 (polls env)))
     \<and> (0 < sint (pendingMessages p)
          \<and> polls env = map TimerFired ns @ TimerFired n # evs
          \<and> (\<forall>k \<in> set ns. 0 < sint k) \<and> sint n \<le> 0 \<longrightarrow>
        snd (ReadBatch p env) = Some (Inl ErrTypeClosed)
        \<and> drainPoll 0 (polls env) = Some (ErrTypeClosed, (int (length ns) + 1) * (10 * Millisecond)))
     \<and> (0 < sint (pendingMessages p)
          \<and> polls env = map TimerFired ns @ CtxDone (ByCaller c) # evs
          \<and> (\<forall>k \<in> set ns. 0 < sint k) \<longrightarrow>
        snd (ReadBatch p env) = Some (Inl ErrTimeout)
        \<and> drainPoll 0 (polls env) = Some (ErrTimeout, int (length ns) * (10 * Millisecond))
        \<and> ErrTimeout \<noteq> ctxErr c)"
proof -
  have idle: "sint (pendingMessages p) \<le> 0 \<Longrightarrow>
      \<exists>e. snd (ReadBatch p env) = Some (Inl e) \<and> isClosedErr e"
    using readFresh_closed_idle [OF assms(2)] assms(1) by (fastforce simp: ReadBatch_fresh)
  have drain: "0 < sint (pendingMessages p) \<Longrightarrow>
      snd (ReadBatch p env) = map_option (\<lambda>(e, w). Inl e) (drainPoll 0 (polls env))"
    using readFresh_closed_draining [OF assms(2)] assms(1) by (simp add: ReadBatch_fresh)
  have differ: "ErrTimeout \<noteq> ctxErr c" by (cases c) simp_all
  show ?thesis
    using idle drain differ
    by (auto simp: drainPoll_closed drainPoll_timeout drainPollInterval_def)
qed

theorem drain_after_source_closed_witness:
  "resendMessages NewAsyncPreserver = []
   \<and> (\<exists>e. sourceRead closedEnv = Inl e \<and> isClosedErr e)
   \<and> sint (pendingMessages NewAsyncPreserver) \<le> 0
   \<and> snd (ReadBatch NewAsyncPreserver closedEnv) = Some (Inl (Wrapped ''read'' ErrTypeClosed))
   \<and> resendMessages drainingState = [] \<and> 0 < sint (inputClosed drainingState)
   \<and> 0 < sint (pendingMessages drainingState)
   \<and> snd (ReadBatch drainingState (closedEnv\<lparr>polls := drainedPolls\<rparr>)) = Some (Inl ErrTypeClosed)
   \<and> drainPoll 0 drainedPolls = Some (ErrTypeClosed, 30 * Millisecond)
   \<and> snd (ReadBatch drainingState (closedEnv\<lparr>polls := cancelledPolls\<rparr>)) = Some (Inl ErrTimeout)
   \<and> drainPoll 0 cancelledPolls = Some (ErrTimeout, 10 * Millisecond)"
proof -
  have q0: "resendMessages NewAsyncPreserver = []"
    by (simp add: NewAsyncPreserver_def)
  have src: "\<exists>e. sourceRead closedEnv = Inl e \<and> isClosedErr e"
    by (simp add: closedEnv_def)
  have idle: "sint (pendingMessages NewAsyncPreserver) \<le> 0"
    by (simp add: NewAsyncPreserver_def)
  have q1: "resendMessages drainingState = []"
    by (simp add: drainingState_def NewAsyncPreserver_def)
  have flag: "0 < sint (inputClosed drainingState)"
    by (simp add: drainingState_def)
  have busy: "0 < sint (pendingMessages drainingState)"
    by (simp add: drainingState_def)
  have ticks2: "\<forall>k \<in> set [2, 1 :: 64 word]. 0 < sint k" by simp
  have ticks1: "\<forall>k \<in> set [2 :: 64 word]. 0 < sint k" by simp
  have zero: "sint (0 :: 64 word) \<le> 0" by simp
  have p1: "polls (closedEnv\<lparr>polls := drainedPolls\<rparr>) = map TimerFired [2, 1] @ TimerFired 0 # []"
    by (simp add: drainedPolls_def)
  have p2: "polls (closedEnv\<lparr>polls := cancelledPolls\<rparr>)
      = map TimerFired [2] @ CtxDone (ByCaller CallerCancelled) # []"
    by (simp add: cancelledPolls_def)
  note t0 = drain_after_source_closed [OF q0 disjI2 [OF src], of "[]" 0 "[]" CallerCancelled]
  note t1 = drain_after_source_closed [OF q1 disjI1 [OF flag],
      of "closedEnv\<lparr>polls := drainedPolls\<rparr>" "[2, 1]" 0 "[]" CallerCancelled]
  note t2 = drain_after_source_closed [OF q1 disjI1 [OF flag],
      of "closedEnv\<lparr>polls := cancelledPolls\<rparr>" "[2]" 0 "[]" CallerCancelled]
  from t0 idle have a: "\<exists>e. snd (ReadBatch NewAsyncPreserver closedEnv) = Some (Inl e) \<and> isClosedErr e"
    by blast
  have a': "snd (ReadBatch NewAsyncPreserver closedEnv) = Some (Inl (Wrapped ''read'' ErrTypeClosed))"
    using a by (simp add: ReadBatch_def readFresh_def closedEnv_def NewAsyncPreserver_def)
  from t1 busy p1 ticks2 zero
  have b: "snd (ReadBatch drainingState (closedEnv\<lparr>polls := drainedPolls\<rparr>)) = Some (Inl ErrTypeClosed)
      \<and> drainPoll 0 (polls (closedEnv\<lparr>polls := drainedPolls\<rparr>))
          = Some (ErrTypeClosed, (int (length [2, 1 :: 64 word]) + 1) * (10 * Millisecond))"
    by blast
  from t2 busy p2 ticks1
  have c: "snd (ReadBatch drainingState (closedEnv\<lparr>polls := cancelledPolls\<rparr>)) = Some (Inl ErrTimeout)
      \<and> drainPoll 0 (polls (closedEnv\<lparr>polls := cancelledPolls\<rparr>))
          = Some (ErrTimeout, int (length [2 :: 64 word]) * (10 * Millisecond))"
    by blast
  from b have b': "drainPoll 0 drainedPolls = Some (ErrTypeClosed, 30 * Millisecond)" by simp
  from c have c': "drainPoll 0 cancelledPolls = Some (ErrTimeout, 10 * Millisecond)" by simp
  show ?thesis
    using q0 src idle a' q1 flag busy b c b' c' by blast
qed

text \<open>
  C9. A read that is in the drain loop has stored the cancel function of its own
  scope as the interrupt, so an acknowledgement that reports a failure meanwhile
  cancels that scope. When the loop receives the end of its scope, whether the
  caller or the interrupt ended it, the read returns the timeout error, which is
  neither of the two errors of a cancelled scope.
\<close>

theorem drain_scope_end_is_timeout:
  assumes "resendMessages p = []"
    and "0 < sint (inputClosed p) \<or> (\<exists>e. sourceRead env = Inl e \<and> isClosedErr e)"
    and "0 < sint (pendingMessages p)"
    and "polls env = map TimerFired ns @ CtxDone c # evs"
    and "\<forall>k \<in> set ns. 0 < sint k"
  shows "snd (ReadBatch p env) = Some (Inl ErrTimeout)
     \<and> ErrTimeout \<noteq> Canceled \<and> ErrTimeout \<noteq> DeadlineExceeded
     \<and> resendInterrupt (fst (ReadBatch p env)) = Some (scope env)
     \<and> cancelled (callAck (fst (ReadBatch p env)) h (Some e)) = [scope env]"
proof -
  have rd: "ReadBatch p env =
      (p\<lparr>resendInterrupt := Some (scope env)\<rparr>,
       map_option (\<lambda>(e, w). Inl e) (drainPoll 0 (polls env)))"
    using readFresh_closed_draining [OF assms(2,3)] assms(1) by (simp add: ReadBatch_fresh)
  have "cancelled (callAck (p\<lparr>resendInterrupt := Some (scope env)\<rparr>) h (Some e)) = [scope env]"
    by (cases h) (simp_all add: enqueue_def)
  then show ?thesis
    using rd assms(4,5) by (simp add: drainPoll_timeout)
qed

theorem drain_scope_end_is_timeout_witness:
  "resendMessages drainingState = [] \<and> 0 < sint (inputClosed drainingState)
   \<and> 0 < sint (pendingMessages drainingState)
   \<and> polls (closedEnv\<lparr>polls := interruptedPolls\<rparr>) = map TimerFired [2] @ CtxDone ByInterrupt # []
   \<and> 0 < sint (2 :: 64 word)
   \<and> snd (ReadBatch drainingState (closedEnv\<lparr>polls := interruptedPolls\<rparr>)) = Some (Inl ErrTimeout)
   \<and> cancelled (callAck (fst (ReadBatch drainingState (closedEnv\<lparr>polls := interruptedPolls\<rparr>)))
        (SingleAck entry1) (Some (Failure ''down''))) = [3]"
proof -
  have q1: "resendMessages drainingState = []"
    by (simp add: drainingState_def NewAsyncPreserver_def)
  have flag: "0 < sint (inputClosed drainingState)"
    by (simp add: drainingState_def)
  have busy: "0 < sint (pendingMessages drainingState)"
    by (simp add: drainingState_def)
  have ticks: "\<forall>k \<in> set [2 :: 64 word]. 0 < sint k" by simp
  have p: "polls (closedEnv\<lparr>polls := interruptedPolls\<rparr>) = map TimerFired [2] @ CtxDone ByInterrupt # []"
    by (simp add: interruptedPolls_def)
  have sc: "scope (closedEnv\<lparr>polls := interruptedPolls\<rparr>) = 3"
    by (simp add: closedEnv_def)
  from drain_scope_end_is_timeout [OF q1 disjI1 [OF flag] busy p ticks,
      of "SingleAck entry1" "Failure ''down''"]
  show ?thesis using q1 flag busy p unfolding sc by simp
qed

subsection \<open>What is delivered again\<close>

lemma total_failure_keeps_batch:
  assumes "(\<forall>n walk. res \<noteq> WalkableError n walk)
     \<or> (\<exists>n walk. res = WalkableError n walk \<and> Len (msg (ackEntry h)) \<le> n)"
  shows "callAck s h (Some res) = enqueue s (ackEntry h)"
proof (cases h)
  case (SingleAck m)
  then show ?thesis by simp
next
  case (BatchAck g m)
  from assms have "resendBatch g (msg m) res = msg m"
    using BatchAck by (auto simp: resendBatch_total)
  then show ?thesis using BatchAck by simp
qed

lemma ident_delivery:
  assumes "ReadBatch p env = (p', Some (Inr (sent, h)))"
  shows "map ident sent = map (\<lambda>i. copyAt env + i) [0..<length (msg (ackEntry h))]"
  using ReadBatch_delivery(1) [OF assms] ident_ShallowCopy length_wrapAckFn by metis

lemma fresh_copies_apart:
  assumes "map ident sent = map (\<lambda>i. a + i) [0..<n]"
    and "\<forall>x \<in> set kept. ident x < a \<or> a + n \<le> ident x"
  shows "set (map ident sent) \<inter> set (map ident kept) = {}"
proof -
  have "set (map ident sent) = {a..<a + n}"
    unfolding assms(1) by (auto simp: image_iff)
  with assms(2) show ?thesis by fastforce
qed

text \<open>
  C8. A delivery hands out a batch and a wrapped acknowledgement. When that
  acknowledgement is invoked with a total failure (an error that is not
  structured, or a structured one that reports at least as many errors as the
  batch has parts), the entry that it appends holds the original batch; and when a
  later read finds that entry first on the queue and delivers it, the delivered
  batch has the same number of parts and the same contents, in the same order, as
  the batch delivered first. Every delivery, of a batch from the source or of an
  entry from the queue, hands out the shallow copy of the batch that the wrapping
  returned for the entry that the decorator keeps: its parts are the objects that
  the copy allocated, so they are not the parts of the kept batch wherever the
  allocator gives out addresses that the kept parts do not have, and their
  contents are the contents of the kept parts.
\<close>

theorem total_failure_redelivered_identical:
  assumes first: "ReadBatch p env = (p', Some (Inr (sent, h)))"
    and total: "(\<forall>n walk. res \<noteq> WalkableError n walk)
       \<or> (\<exists>n walk. res = WalkableError n walk \<and> Len (msg (ackEntry h)) \<le> n)"
    and queued: "resendMessages q = last (resendMessages (ackState (callAck s h (Some res)))) # rest"
    and again: "ReadBatch q env' = (q', Some (Inr (sent', h')))"
  shows "map content sent' = map content sent \<and> length sent' = length sent
    \<and> map content sent = map content (msg (ackEntry h))
    \<and> map content sent' = map content (msg (ackEntry h'))
    \<and> msg (ackEntry h') = msg (ackEntry h)
    \<and> sent = ShallowCopy (copyAt env)
               (fst (wrapAckFn (trackAt env) (newGroup env) (ackEntry h)))
    \<and> sent' = ShallowCopy (copyAt env')
               (fst (wrapAckFn (trackAt env') (newGroup env') (ackEntry h')))
    \<and> map ident sent = map (\<lambda>i. copyAt env + i) [0..<length (msg (ackEntry h))]
    \<and> map ident sent' = map (\<lambda>i. copyAt env' + i) [0..<length (msg (ackEntry h'))]
    \<and> ((\<forall>x \<in> set (msg (ackEntry h)).
           ident x < copyAt env \<or> copyAt env + length (msg (ackEntry h)) \<le> ident x)
        \<longrightarrow> set (map ident sent) \<inter> set (map ident (msg (ackEntry h))) = {})
    \<and> ((\<forall>x \<in> set (msg (ackEntry h')).
           ident x < copyAt env' \<or> copyAt env' + length (msg (ackEntry h')) \<le> ident x)
        \<longrightarrow> set (map ident sent') \<inter> set (map ident (msg (ackEntry h'))) = {})"
proof -
  have "last (resendMessages (ackState (callAck s h (Some res)))) = ackEntry h"
    by (simp add: total_failure_keeps_batch [OF total] enqueue_def)
  with queued have "resendMessages q = ackEntry h # rest" by simp
  from ReadBatch_redelivers_head [OF this again]
  have second: "map content sent' = map content (msg (ackEntry h))"
    and same: "msg (ackEntry h') = msg (ackEntry h)" by simp_all
  have one: "map content sent = map content (msg (ackEntry h))"
    by (rule ReadBatch_shares [OF first])
  from one second have eq: "map content sent' = map content sent" by simp
  then have "length (map content sent') = length (map content sent)" by simp
  then have len: "length sent' = length sent" by simp
  note id1 = ident_delivery [OF first]
  note id2 = ident_delivery [OF again]
  have apart1: "(\<forall>x \<in> set (msg (ackEntry h)).
           ident x < copyAt env \<or> copyAt env + length (msg (ackEntry h)) \<le> ident x)
        \<longrightarrow> set (map ident sent) \<inter> set (map ident (msg (ackEntry h))) = {}"
    using fresh_copies_apart [OF id1] by blast
  have apart2: "(\<forall>x \<in> set (msg (ackEntry h')).
           ident x < copyAt env' \<or> copyAt env' + length (msg (ackEntry h')) \<le> ident x)
        \<longrightarrow> set (map ident sent') \<inter> set (map ident (msg (ackEntry h'))) = {}"
    using fresh_copies_apart [OF id2] by blast
  from second same have second': "map content sent' = map content (msg (ackEntry h'))"
    by simp
  note d1 = ReadBatch_delivery(1) [OF first]
  note d2 = ReadBatch_delivery(1) [OF again]
  show ?thesis
    by (intro conjI eq len one second' same d1 d2 id1 id2 apart1 apart2)
qed

lemmas read_defs = ReadBatch_def redeliver_def backoffDelay_def readFresh_def deliver_eq
  wrapAckFn_def wrapSingleAckFn_def wrapBatchAckFn_def enqueue_def forward_def
  NewAsyncPreserver_def word_sless_alt

theorem total_failure_redelivered_identical_witness:
  "ReadBatch NewAsyncPreserver freshEnv3 = (delivered3, Some (Inr (sent3, BatchAck 7 entry3)))
   \<and> (\<forall>n walk. Failure ''down'' \<noteq> WalkableError n walk)
   \<and> resendMessages (ackState (callAck delivered3 (BatchAck 7 entry3) (Some (Failure ''down''))))
     = last (resendMessages (ackState (callAck delivered3 (BatchAck 7 entry3) (Some (Failure ''down''))))) # []
   \<and> ReadBatch (ackState (callAck delivered3 (BatchAck 7 entry3) (Some (Failure ''down'')))) retryEnv
     = (delivered3, Some (Inr (ShallowCopy 400 (snd (NewSortGroup 300 8 batch3)),
          BatchAck 8 (entry3\<lparr>attempts := 1\<rparr>))))
   \<and> map content (ShallowCopy 400 (snd (NewSortGroup 300 8 batch3))) = map content sent3
   \<and> map content sent3 = [10, 11, 12]
   \<and> map ident (msg entry3) = [1, 2, 3]
   \<and> map ident sent3 = [200, 201, 202]
   \<and> map ident (ShallowCopy 400 (snd (NewSortGroup 300 8 batch3))) = [400, 401, 402]
   \<and> set (map ident sent3) \<inter> set (map ident (msg entry3)) = {}"
proof -
  let ?h = "BatchAck 7 entry3"
  let ?res = "Failure ''down''"
  let ?q = "ackState (callAck delivered3 ?h (Some ?res))"
  let ?sent' = "ShallowCopy 400 (snd (NewSortGroup 300 8 batch3))"
  have first: "ReadBatch NewAsyncPreserver freshEnv3 = (delivered3, Some (Inr (sent3, ?h)))"
    by (simp add: freshEnv3_def delivered3_def example_defs read_defs)
  have total: "(\<forall>n walk. ?res \<noteq> WalkableError n walk)
      \<or> (\<exists>n walk. ?res = WalkableError n walk \<and> Len (msg (ackEntry ?h)) \<le> n)"
    by simp
  have queue: "resendMessages ?q = [entry3]"
    by (simp add: delivered3_def resendBatch_def read_defs)
  then have queued: "resendMessages ?q = last (resendMessages ?q) # []"
    by simp
  have again: "ReadBatch ?q retryEnv
      = (delivered3, Some (Inr (?sent', BatchAck 8 (entry3\<lparr>attempts := 1\<rparr>))))"
    by (simp add: retryEnv_def delivered3_def resendBatch_def example_defs read_defs)
  have kept: "map ident (msg entry3) = [1, 2, 3]"
    by (simp add: example_defs)
  have vals: "map content sent3 = [10, 11, 12]"
    by (simp add: example_defs)
  have fresh: "\<forall>x \<in> set (msg (ackEntry ?h)).
      ident x < copyAt freshEnv3 \<or> copyAt freshEnv3 + length (msg (ackEntry ?h)) \<le> ident x"
    by (simp add: freshEnv3_def example_defs)
  note t = total_failure_redelivered_identical [OF first total queued again]
  from t have c: "map content ?sent' = map content sent3" by blast
  from t have i1: "map ident sent3
      = map (\<lambda>i. copyAt freshEnv3 + i) [0..<length (msg (ackEntry ?h))]" by blast
  from t have i2: "map ident ?sent'
      = map (\<lambda>i. copyAt retryEnv + i) [0..<length (msg (ackEntry (BatchAck 8 (entry3\<lparr>attempts := 1\<rparr>))))]"
    by blast
  from t fresh have apart: "set (map ident sent3) \<inter> set (map ident (msg (ackEntry ?h))) = {}"
    by blast
  have i1': "map ident sent3 = [200, 201, 202]"
    using i1 by (simp add: freshEnv3_def example_defs)
  have i2': "map ident ?sent' = [400, 401, 402]"
    using i2 by (simp add: retryEnv_def example_defs)
  from apart have apart': "set (map ident sent3) \<inter> set (map ident (msg entry3)) = {}"
    by simp
  from first total queued again c vals kept i1' i2' apart' show ?thesis by blast
qed

section \<open>The counter\<close>

lemma redeliver_state: "fst (redeliver p env m) = p"
  using redeliver_cases [of p env m] by (auto simp: deliver_eq)

lemma redeliver_returns: "snd (redeliver p env m) \<noteq> None"
  using redeliver_cases [of p env m] by (auto simp: deliver_eq)

lemma readFresh_state:
  "fst (readFresh p env) =
     (if \<exists>d. snd (readFresh p env) = Some (Inr d)
      then p\<lparr>resendInterrupt := Some (scope env), pendingMessages := pendingMessages p + 1\<rparr>
      else p\<lparr>resendInterrupt := Some (scope env)\<rparr>)"
  by (auto simp: readFresh_def deliver_eq Let_def split: sum.splits option.splits)

lemma ReadBatch_counter:
  "pendingMessages (fst (ReadBatch p env)) =
     (if resendMessages p = [] \<and> (\<exists>d. snd (ReadBatch p env) = Some (Inr d))
      then pendingMessages p + 1 else pendingMessages p)"
proof (cases "resendMessages p")
  case Nil
  then show ?thesis by (simp add: ReadBatch_fresh readFresh_state)
next
  case (Cons m rest)
  then show ?thesis by (simp add: ReadBatch_queue redeliver_state)
qed

lemma ReadBatch_queue_after:
  "resendMessages (fst (ReadBatch p env)) = tl (resendMessages p)"
proof (cases "resendMessages p")
  case Nil
  then show ?thesis by (simp add: ReadBatch_fresh readFresh_state)
next
  case (Cons m rest)
  then show ?thesis by (simp add: ReadBatch_queue redeliver_state)
qed

lemma callAck_counter:
  "pendingMessages (ackState (callAck p h res)) =
     (if res = None then pendingMessages p - 1 else pendingMessages p)"
  by (cases h; cases res) (simp_all add: enqueue_def forward_def)

lemma callAck_queue:
  "length (resendMessages (ackState (callAck p h res))) =
     (if res = None then length (resendMessages p) else Suc (length (resendMessages p)))"
  by (cases h; cases res) (simp_all add: enqueue_def forward_def)

lemma counted_read: 
  assumes "counted c" shows "counted (readStep c env)"
proof (cases "snd (ReadBatch (dec c) env)")
  case None
  then have "resendMessages (dec c) = []"
    using redeliver_returns by (cases "resendMessages (dec c)") (auto simp: ReadBatch_queue)
  with None assms show ?thesis
    using ReadBatch_counter [of "dec c" env] ReadBatch_queue_after [of "dec c" env]
    by (simp add: counted_def inFlight_def readStep_def split_beta)
next
  case (Some r)
  show ?thesis
  proof (cases r)
    case (Inl e)
    with Some assms show ?thesis
      using ReadBatch_counter [of "dec c" env] ReadBatch_queue_after [of "dec c" env]
      by (cases "resendMessages (dec c)") (simp_all add: counted_def inFlight_def readStep_def split_beta)
  next
    case (Inr d)
    with Some assms show ?thesis
      using ReadBatch_counter [of "dec c" env] ReadBatch_queue_after [of "dec c" env]
      by (cases "resendMessages (dec c)") (simp_all add: counted_def inFlight_def readStep_def split_beta)
  qed
qed

lemma counted_ack:
  assumes "counted c" and "i < length (outstanding c)"
  shows "counted (ackStep c i res)"
proof -
  have len: "length (take i (outstanding c) @ drop (Suc i) (outstanding c)) = length (outstanding c) - 1"
    using assms(2) by simp
  show ?thesis
  proof (cases res)
    case None
    have "(of_nat (inFlight c) :: 64 word) - 1 = of_nat (inFlight c - 1)"
      using assms(2) by (simp add: inFlight_def)
    with None assms len show ?thesis
      by (simp add: counted_def inFlight_def ackStep_def callAck_counter callAck_queue)
  next
    case (Some e)
    with assms len show ?thesis
      by (simp add: counted_def inFlight_def ackStep_def callAck_counter callAck_queue)
  qed
qed

lemma reachable_counted: "reachable c \<Longrightarrow> counted c"
proof (induction rule: reachable.induct)
  case reach_initial
  then show ?case by (simp add: counted_def inFlight_def initial_def NewAsyncPreserver_def)
next
  case (reach_connect c err)
  then show ?case by (simp add: counted_def inFlight_def connectStep_def Connect_def)
next
  case (reach_close c err)
  then show ?case by (simp add: counted_def inFlight_def closeStep_def Close_def)
next
  case (reach_read c env)
  then show ?case by (simp add: counted_read)
next
  case (reach_ack c i res)
  then show ?case by (simp add: counted_ack)
qed

text \<open>
  C6. In every state that the decorator and its caller can reach, with each
  delivered acknowledgement invoked at most once and fewer than \<open>2 ^ 63\<close> batches
  in flight, the counter is at least the length of the queue: it is the number of
  batches in flight, which are the queued entries, the deliveries not yet
  acknowledged and the entries that a read abandoned. A read adds one to the
  counter exactly when the queue was empty and it delivers a batch from the
  source, and leaves it as it is otherwise; an acknowledgement takes one from it
  exactly when it reports success; Connect and Close leave it as it is.
\<close>

theorem counter_bounds_queue:
  "(reachable c \<and> inFlight c < 2 ^ 63 \<longrightarrow>
      int (length (resendMessages (dec c))) \<le> sint (pendingMessages (dec c))
      \<and> sint (pendingMessages (dec c)) = int (inFlight c))
   \<and> pendingMessages (fst (ReadBatch p env)) =
       (if resendMessages p = [] \<and> (\<exists>d. snd (ReadBatch p env) = Some (Inr d))
        then pendingMessages p + 1 else pendingMessages p)
   \<and> pendingMessages (ackState (callAck p h res)) =
       (if res = None then pendingMessages p - 1 else pendingMessages p)
   \<and> pendingMessages (fst (Connect p err)) = pendingMessages p
   \<and> pendingMessages (fst (Close p err)) = pendingMessages p"
proof -
  have inv: "reachable c \<and> inFlight c < 2 ^ 63 \<longrightarrow>
      int (length (resendMessages (dec c))) \<le> sint (pendingMessages (dec c))
      \<and> sint (pendingMessages (dec c)) = int (inFlight c)"
  proof
    assume a: "reachable c \<and> inFlight c < 2 ^ 63"
    then have small: "inFlight c < 2 ^ 63" ..
    from a have "counted c" by (simp add: reachable_counted)
    then have "sint (pendingMessages (dec c)) = int (inFlight c)"
      by (simp add: counted_def sint_of_nat_small [OF small])
    then show "int (length (resendMessages (dec c))) \<le> sint (pendingMessages (dec c))
        \<and> sint (pendingMessages (dec c)) = int (inFlight c)"
      by (simp add: inFlight_def)
  qed
  have conn: "pendingMessages (fst (Connect p err)) = pendingMessages p"
    by (simp add: Connect_def)
  have clos: "pendingMessages (fst (Close p err)) = pendingMessages p"
    by (simp add: Close_def)
  show ?thesis
    by (intro conjI inv ReadBatch_counter callAck_counter conn clos)
qed

theorem counter_bounds_queue_witness:
  "reachable failedTwice \<and> inFlight failedTwice < 2 ^ 63
   \<and> int (length (resendMessages (dec failedTwice))) \<le> sint (pendingMessages (dec failedTwice))
   \<and> length (resendMessages (dec failedTwice)) = 1
   \<and> sint (pendingMessages (dec failedTwice)) = 1"
proof -
  have small: "inFlight failedTwice < 2 ^ 63"
    by (simp add: failedTwice_eq inFlight_def)
  from counter_bounds_queue [of failedTwice] reachable_failedTwice small
  have "int (length (resendMessages (dec failedTwice))) \<le> sint (pendingMessages (dec failedTwice))"
    by blast
  then show ?thesis
    using reachable_failedTwice small by (simp add: failedTwice_eq)
qed

end
